theory Spec2Isabelle
  imports Complex_Main
begin

section \<open>Strings\<close>

text \<open>
  A Python \<open>str\<close> is a sequence of Unicode code points and \<open>len\<close> counts code points:
  a string is a list of code points, each a natural number.  \<open>str\<close> reads a literal.
\<close>

type_synonym pystr = "nat list"

definition str :: "string \<Rightarrow> pystr" where
  "str s = map of_char s"

text \<open>
  \<open>str.strip()\<close> without argument removes leading and trailing white space, the code
  points for which \<open>str.isspace\<close> holds.
\<close>

definition is_space :: "nat \<Rightarrow> bool" where
  "is_space n =
     ((9 \<le> n \<and> n \<le> 13) \<or> (28 \<le> n \<and> n \<le> 32) \<or> n = 133 \<or> n = 160 \<or> n = 5760 \<or>
      (8192 \<le> n \<and> n \<le> 8202) \<or> n = 8232 \<or> n = 8233 \<or> n = 8239 \<or> n = 8287 \<or>
      n = 12288)"

definition strip :: "pystr \<Rightarrow> pystr" where
  "strip s = rev (dropWhile is_space (rev (dropWhile is_space s)))"

section \<open>The segment merger (whisper.py, sentence_segments_merger)\<close>

text \<open>
  A segment is the dictionary with the keys \<open>"text"\<close>, \<open>"start"\<close> and \<open>"end"\<close>.  The
  time stamps are taken from any linearly ordered type with a zero and a subtraction:
  the merger only subtracts two of them and compares, and no law of subtraction is
  used in what follows.
\<close>

record 't segment =
  seg_text :: pystr
  seg_start :: 't
  seg_end :: 't

text \<open>The variables of the loop: the list built so far, the accumulator, the flag.\<close>

record 't merge_state =
  merged_segments :: "'t segment list"
  current_segment :: "'t segment"
  is_current_segment_empty :: bool

definition current_segment_template :: "('t::zero) segment" where
  "current_segment_template = \<lparr>seg_text = [], seg_start = 0, seg_end = 0\<rparr>"

definition merge_init :: "('t::zero) merge_state" where
  "merge_init =
     \<lparr>merged_segments = [], current_segment = current_segment_template,
      is_current_segment_empty = True\<rparr>"

text \<open>The test of line 127-128 on the open accumulator and the incoming segment.\<close>

definition fits :: "int \<Rightarrow> 't \<Rightarrow> ('t::{minus,linorder}) segment \<Rightarrow> 't segment \<Rightarrow> bool" where
  "fits max_text_len max_segment_interval cur segment =
     (seg_start segment - seg_end cur < max_segment_interval \<and>
      int (length (seg_text cur @ str '' '' @ strip (seg_text segment))) < max_text_len)"

text \<open>One iteration of the \<open>for\<close> loop.\<close>

definition merge_step ::
  "int \<Rightarrow> 't \<Rightarrow> ('t::{zero,minus,linorder}) merge_state \<Rightarrow> 't segment \<Rightarrow> 't merge_state" where
  "merge_step max_text_len max_segment_interval st segment =
     (let segment_text = strip (seg_text segment); cur = current_segment st in
      if segment_text = [] then st
      else if is_current_segment_empty st then
        st\<lparr>current_segment :=
             cur\<lparr>seg_start := seg_start segment, seg_end := seg_end segment,
                 seg_text := strip (seg_text segment)\<rparr>,
           is_current_segment_empty := False\<rparr>
      else if fits max_text_len max_segment_interval cur segment then
        st\<lparr>current_segment :=
             cur\<lparr>seg_text := strip (seg_text cur @ str '' '' @ segment_text),
                 seg_end := seg_end segment\<rparr>\<rparr>
      else
        \<lparr>merged_segments = merged_segments st @ [cur\<lparr>seg_text := strip (seg_text cur)\<rparr>],
         current_segment =
           current_segment_template
             \<lparr>seg_start := seg_start segment, seg_end := seg_end segment,
              seg_text := strip (seg_text segment)\<rparr>,
         is_current_segment_empty = False\<rparr>)"

definition merge_finish :: "'t merge_state \<Rightarrow> 't segment list" where
  "merge_finish st =
     (if \<not> is_current_segment_empty st
      then merged_segments st @ [(current_segment st)\<lparr>seg_text := strip (seg_text (current_segment st))\<rparr>]
      else merged_segments st)"

definition sentence_segments_merger ::
  "('t::{zero,minus,linorder}) segment list \<Rightarrow> int \<Rightarrow> 't \<Rightarrow> 't segment list" where
  "sentence_segments_merger segments max_text_len max_segment_interval =
     (if segments = [] then []
      else merge_finish (foldl (merge_step max_text_len max_segment_interval) merge_init segments))"

subsection \<open>The segments behind each cue\<close>

text \<open>
  A cue does not record the segments it was merged from.  To speak of them, the loop is
  run a second time with a ghost variable next to its state: the groups of segments of
  the cues already sealed, and the group of the open cue.  \<open>group_step\<close> takes the same
  branch as \<open>merge_step\<close> and only records the segment; it changes nothing of the state.
  \<open>cue_of\<close> is the cue the specification describes for a group: the trimmed texts joined
  by single spaces, the start of the first segment and the end of the last.
\<close>

definition nonblank :: "'t segment \<Rightarrow> bool" where
  "nonblank t = (strip (seg_text t) \<noteq> [])"

definition trimmed :: "pystr \<Rightarrow> bool" where
  "trimmed s = (s \<noteq> [] \<and> \<not> is_space (hd s) \<and> \<not> is_space (last s))"

fun join_words :: "pystr list \<Rightarrow> pystr" where
  "join_words [] = []"
| "join_words [w] = w"
| "join_words (w # v # ws) = w @ str '' '' @ join_words (v # ws)"

definition cue_of :: "'t segment list \<Rightarrow> 't segment" where
  "cue_of g =
     \<lparr>seg_text = join_words (map (\<lambda>t. strip (seg_text t)) g),
      seg_start = seg_start (hd g), seg_end = seg_end (last g)\<rparr>"

record 't grouping =
  closed_groups :: "'t segment list list"
  open_group :: "'t segment list"

definition group_step ::
  "int \<Rightarrow> 't \<Rightarrow> ('t::{zero,minus,linorder}) merge_state \<Rightarrow> 't grouping \<Rightarrow> 't segment \<Rightarrow> 't grouping" where
  "group_step max_text_len max_segment_interval st gr segment =
     (if strip (seg_text segment) = [] then gr
      else if is_current_segment_empty st then gr\<lparr>open_group := [segment]\<rparr>
      else if fits max_text_len max_segment_interval (current_segment st) segment
        then gr\<lparr>open_group := open_group gr @ [segment]\<rparr>
      else \<lparr>closed_groups = closed_groups gr @ [open_group gr], open_group = [segment]\<rparr>)"

definition traced_step ::
  "int \<Rightarrow> 't \<Rightarrow> ('t::{zero,minus,linorder}) merge_state \<times> 't grouping \<Rightarrow> 't segment
     \<Rightarrow> 't merge_state \<times> 't grouping" where
  "traced_step max_text_len max_segment_interval sg segment =
     (merge_step max_text_len max_segment_interval (fst sg) segment,
      group_step max_text_len max_segment_interval (fst sg) (snd sg) segment)"

definition group_finish :: "'t merge_state \<times> 't grouping \<Rightarrow> 't segment list list" where
  "group_finish sg =
     (if \<not> is_current_segment_empty (fst sg)
      then closed_groups (snd sg) @ [open_group (snd sg)]
      else closed_groups (snd sg))"

definition traced_run ::
  "int \<Rightarrow> 't \<Rightarrow> ('t::{zero,minus,linorder}) segment list \<Rightarrow> 't merge_state \<times> 't grouping" where
  "traced_run max_text_len max_segment_interval segments =
     foldl (traced_step max_text_len max_segment_interval)
       (merge_init, \<lparr>closed_groups = [], open_group = []\<rparr>) segments"

definition merger_groups ::
  "('t::{zero,minus,linorder}) segment list \<Rightarrow> int \<Rightarrow> 't \<Rightarrow> 't segment list list" where
  "merger_groups segments max_text_len max_segment_interval =
     group_finish (traced_run max_text_len max_segment_interval segments)"

text \<open>The invariant of the loop that ties the state to the ghost variable.\<close>

definition linked :: "('t::{zero,minus,linorder}) merge_state \<Rightarrow> 't grouping \<Rightarrow> bool" where
  "linked st gr =
     (merged_segments st = map cue_of (closed_groups gr) \<and>
      [] \<notin> set (closed_groups gr) \<and>
      (if is_current_segment_empty st then closed_groups gr = [] \<and> open_group gr = []
       else open_group gr \<noteq> [] \<and> current_segment st = cue_of (open_group gr) \<and>
            trimmed (seg_text (current_segment st))))"

subsection \<open>Trimming and joining\<close>

lemma last_dropWhile: "dropWhile P xs \<noteq> [] \<Longrightarrow> last (dropWhile P xs) = last xs"
  by (induction xs) (auto split: if_splits)

lemma strip_trimmed: "strip s \<noteq> [] \<Longrightarrow> trimmed (strip s)"
proof -
  assume ne: "strip s \<noteq> []"
  let ?d = "dropWhile is_space s"
  let ?e = "dropWhile is_space (rev ?d)"
  from ne have e: "?e \<noteq> []" by (simp add: strip_def)
  then have d: "?d \<noteq> []" by (cases "?d") auto
  have "last (strip s) = hd ?e" using e by (simp add: strip_def last_rev)
  moreover have "\<not> is_space (hd ?e)" using e hd_dropWhile by blast
  moreover have "hd (strip s) = last ?e" using e by (simp add: strip_def hd_rev)
  moreover have "last ?e = hd ?d" using e d by (simp add: last_dropWhile last_rev)
  moreover have "\<not> is_space (hd ?d)" using d hd_dropWhile by blast
  ultimately show ?thesis using ne by (simp add: trimmed_def)
qed

lemma trimmed_strip: "trimmed s \<Longrightarrow> strip s = s"
proof -
  assume t: "trimmed s"
  then have "dropWhile is_space s = s"
    by (simp add: trimmed_def dropWhile_eq_self_iff)
  moreover from t have "dropWhile is_space (rev s) = rev s"
    by (simp add: trimmed_def dropWhile_eq_self_iff hd_rev)
  ultimately show ?thesis by (simp add: strip_def)
qed

lemma length_strip_le: "length (strip s) \<le> length s"
proof -
  have "length (dropWhile is_space (rev (dropWhile is_space s))) \<le> length (dropWhile is_space s)"
    using length_dropWhile_le [of is_space "rev (dropWhile is_space s)"] by simp
  also have "\<dots> \<le> length s" by (rule length_dropWhile_le)
  finally show ?thesis by (simp add: strip_def)
qed

lemma trimmed_join: "trimmed a \<Longrightarrow> trimmed b \<Longrightarrow> trimmed (a @ m @ b)"
  by (auto simp: trimmed_def)

lemma join_words_snoc: "ws \<noteq> [] \<Longrightarrow> join_words (ws @ [w]) = join_words ws @ str '' '' @ w"
  by (induction ws rule: join_words.induct) auto

lemma cue_of_single:
  "cue_of [t] = \<lparr>seg_text = strip (seg_text t), seg_start = seg_start t, seg_end = seg_end t\<rparr>"
  by (simp add: cue_of_def)

lemma cue_of_snoc:
  "g \<noteq> [] \<Longrightarrow> cue_of (g @ [t]) =
     (cue_of g)\<lparr>seg_text := seg_text (cue_of g) @ str '' '' @ strip (seg_text t), seg_end := seg_end t\<rparr>"
  by (simp add: cue_of_def join_words_snoc)

subsection \<open>The invariant holds along the loop\<close>

lemma linked_init: "linked merge_init \<lparr>closed_groups = [], open_group = []\<rparr>"
  by (simp add: linked_def merge_init_def)

lemma linked_step:
  assumes "linked st gr"
  shows "linked (merge_step L G st seg) (group_step L G st gr seg)"
proof (cases "strip (seg_text seg) = []")
  case True
  with assms show ?thesis by (simp add: merge_step_def group_step_def)
next
  case nb: False
  then have tr: "trimmed (strip (seg_text seg))" by (rule strip_trimmed)
  show ?thesis
  proof (cases "is_current_segment_empty st")
    case True
    with assms nb tr show ?thesis
      by (simp add: merge_step_def group_step_def linked_def cue_of_single Let_def)
  next
    case op: False
    with assms have g: "open_group gr \<noteq> []" and cur: "current_segment st = cue_of (open_group gr)"
      and tc: "trimmed (seg_text (current_segment st))"
      and m: "merged_segments st = map cue_of (closed_groups gr)" "[] \<notin> set (closed_groups gr)"
      by (auto simp: linked_def)
    show ?thesis
    proof (cases "fits L G (current_segment st) seg")
      case True
      have "trimmed (seg_text (current_segment st) @ str '' '' @ strip (seg_text seg))"
        using tc tr by (rule trimmed_join)
      then show ?thesis using nb op True g cur m
        by (simp add: merge_step_def group_step_def linked_def Let_def cue_of_snoc trimmed_strip)
    next
      case False
      then show ?thesis using nb op g cur m tc tr
        by (simp add: merge_step_def group_step_def linked_def Let_def cue_of_single
            trimmed_strip current_segment_template_def)
    qed
  qed
qed

definition flat :: "'t grouping \<Rightarrow> 't segment list" where
  "flat gr = concat (closed_groups gr) @ open_group gr"

lemma flat_step:
  "linked st gr \<Longrightarrow> flat (group_step L G st gr seg) = flat gr @ filter nonblank [seg]"
  by (auto simp: group_step_def flat_def nonblank_def linked_def)

lemma traced_fst:
  "fst (foldl (traced_step L G) sg segs) = foldl (merge_step L G) (fst sg) segs"
  by (induction segs arbitrary: sg) (simp_all add: traced_step_def)

lemma linked_fold:
  "linked (fst sg) (snd sg) \<Longrightarrow>
   linked (fst (foldl (traced_step L G) sg segs)) (snd (foldl (traced_step L G) sg segs))"
proof (induction segs arbitrary: sg)
  case Nil
  then show ?case by simp
next
  case (Cons seg segs)
  have "linked (fst (traced_step L G sg seg)) (snd (traced_step L G sg seg))"
    using Cons.prems by (simp add: traced_step_def linked_step)
  from Cons.IH [OF this] show ?case by simp
qed

lemma flat_fold:
  "linked (fst sg) (snd sg) \<Longrightarrow>
   flat (snd (foldl (traced_step L G) sg segs)) = flat (snd sg) @ filter nonblank segs"
proof (induction segs arbitrary: sg)
  case Nil
  then show ?case by simp
next
  case (Cons seg segs)
  let ?sg = "traced_step L G sg seg"
  have l: "linked (fst ?sg) (snd ?sg)"
    using Cons.prems by (simp add: traced_step_def linked_step)
  have f: "flat (snd ?sg) = flat (snd sg) @ filter nonblank [seg]"
    using Cons.prems by (simp add: traced_step_def flat_step)
  have "flat (snd (foldl (traced_step L G) ?sg segs)) = flat (snd ?sg) @ filter nonblank segs"
    using l by (rule Cons.IH)
  with f show ?case by simp
qed

lemma traced_run_linked: "linked (fst (traced_run L G segs)) (snd (traced_run L G segs))"
  unfolding traced_run_def by (rule linked_fold) (simp add: linked_init)

lemma traced_run_fst: "fst (traced_run L G segs) = foldl (merge_step L G) merge_init segs"
  unfolding traced_run_def by (simp add: traced_fst)

lemma traced_run_flat: "flat (snd (traced_run L G segs)) = filter nonblank segs"
  unfolding traced_run_def by (subst flat_fold) (simp_all add: linked_init flat_def)

lemma merger_groups_run: "merger_groups segs L G = group_finish (traced_run L G segs)"
  by (simp add: merger_groups_def)

lemma merger_is_cues:
  "sentence_segments_merger segs L G = map cue_of (merger_groups segs L G)"
proof (cases "segs = []")
  case True
  then show ?thesis
    by (simp add: sentence_segments_merger_def merger_groups_def traced_run_def group_finish_def
        merge_init_def)
next
  case False
  have "merge_finish (fst (traced_run L G segs)) = map cue_of (group_finish (traced_run L G segs))"
    using traced_run_linked [of L G segs]
    by (auto simp: group_finish_def merge_finish_def linked_def trimmed_strip split: if_splits)
  then show ?thesis using False
    by (simp add: sentence_segments_merger_def merger_groups_run traced_run_fst)
qed

lemma merger_groups_concat: "concat (merger_groups segs L G) = filter nonblank segs"
  using traced_run_linked [of L G segs] traced_run_flat [of L G segs]
  by (auto simp: merger_groups_run group_finish_def flat_def linked_def split: if_splits)

lemma merger_groups_nonempty: "[] \<notin> set (merger_groups segs L G)"
  using traced_run_linked [of L G segs]
  by (auto simp: merger_groups_run group_finish_def linked_def split: if_splits)

text \<open>
  A property of groups holds of every group of a run when it holds of a single segment
  and is kept when a segment that passes the test of the loop is added.
\<close>

lemma group_step_Q:
  assumes l: "linked st gr"
    and c: "\<forall>g\<in>set (closed_groups gr). Q g"
    and o: "\<not> is_current_segment_empty st \<longrightarrow> Q (open_group gr)"
    and single: "\<And>t. nonblank t \<Longrightarrow> Q [t]"
    and snoc: "\<And>g t. g \<noteq> [] \<Longrightarrow> Q g \<Longrightarrow> nonblank t \<Longrightarrow> fits L G (cue_of g) t \<Longrightarrow> Q (g @ [t])"
  shows "(\<forall>g\<in>set (closed_groups (group_step L G st gr seg)). Q g) \<and>
         (\<not> is_current_segment_empty (merge_step L G st seg) \<longrightarrow>
            Q (open_group (group_step L G st gr seg)))"
proof (cases "nonblank seg")
  case False
  with c o show ?thesis by (simp add: group_step_def merge_step_def nonblank_def)
next
  case nb: True
  show ?thesis
  proof (cases "is_current_segment_empty st")
    case True
    with nb c single [OF nb] show ?thesis
      by (simp add: group_step_def merge_step_def nonblank_def Let_def)
  next
    case op: False
    with l have g: "open_group gr \<noteq> []" and cur: "current_segment st = cue_of (open_group gr)"
      by (auto simp: linked_def)
    from op o have q: "Q (open_group gr)" by simp
    show ?thesis
    proof (cases "fits L G (current_segment st) seg")
      case True
      then have "Q (open_group gr @ [seg])" using snoc [OF g q nb] cur by simp
      with nb op True c show ?thesis
        by (simp add: group_step_def merge_step_def nonblank_def Let_def)
    next
      case False
      with nb op c q single [OF nb] show ?thesis
        by (simp add: group_step_def merge_step_def nonblank_def Let_def)
    qed
  qed
qed

lemma merger_groups_all:
  assumes single: "\<And>t. nonblank t \<Longrightarrow> Q [t]"
    and snoc: "\<And>g t. g \<noteq> [] \<Longrightarrow> Q g \<Longrightarrow> nonblank t \<Longrightarrow> fits L G (cue_of g) t \<Longrightarrow> Q (g @ [t])"
  shows "\<forall>g\<in>set (merger_groups segs L G). Q g"
proof -
  let ?I = "\<lambda>sg. linked (fst sg) (snd sg) \<and> (\<forall>g\<in>set (closed_groups (snd sg)). Q g) \<and>
                 (\<not> is_current_segment_empty (fst sg) \<longrightarrow> Q (open_group (snd sg)))"
  have step: "?I (traced_step L G sg seg)" if "?I sg" for sg seg
    using that group_step_Q [of "fst sg" "snd sg" Q L G seg, OF _ _ _ single snoc]
    by (simp add: traced_step_def linked_step)
  have fold: "?I sg \<Longrightarrow> ?I (foldl (traced_step L G) sg xs)" for sg xs
  proof (induction xs arbitrary: sg)
    case Nil
    then show ?case by simp
  next
    case (Cons x xs)
    have "?I (traced_step L G sg x)" using Cons.prems by (rule step)
    from Cons.IH [OF this] show ?case by simp
  qed
  have "?I (merge_init, \<lparr>closed_groups = [], open_group = []\<rparr>)"
    by (simp add: linked_init) (simp add: merge_init_def)
  from fold [OF this, of segs] show ?thesis
    by (auto simp: merger_groups_run traced_run_def group_finish_def split: if_splits)
qed

lemma foldl_merge_step_filter:
  "foldl (merge_step L G) st (filter nonblank segs) = foldl (merge_step L G) st segs"
proof (induction segs arbitrary: st)
  case Nil
  show ?case by simp
next
  case (Cons seg segs)
  show ?case
  proof (cases "nonblank seg")
    case True
    then show ?thesis by (simp add: Cons.IH)
  next
    case False
    then have "merge_step L G st seg = st" by (simp add: merge_step_def nonblank_def)
    with False show ?thesis by (simp add: Cons.IH)
  qed
qed

lemma merge_finish_init: "merge_finish merge_init = []"
  by (simp add: merge_finish_def merge_init_def)

lemma join_words_nonempty: "ws \<noteq> [] \<Longrightarrow> \<forall>w\<in>set ws. w \<noteq> [] \<Longrightarrow> join_words ws \<noteq> []"
  by (induction ws rule: join_words.induct) auto


lemma sorted_concat_part:
  "sorted (map f (concat gs)) \<Longrightarrow> g \<in> set gs \<Longrightarrow> sorted (map f g)"
  by (induction gs) (auto simp: sorted_append)

lemma sorted_heads:
  "sorted (map f (concat gs)) \<Longrightarrow> [] \<notin> set gs \<Longrightarrow> sorted (map (\<lambda>g. f (hd g)) gs)"
proof (induction gs)
  case Nil
  show ?case by simp
next
  case (Cons g gs)
  then have g: "g \<noteq> []" by auto
  have "f (hd g) \<le> f (hd h)" if "h \<in> set gs" for h
  proof -
    from that Cons.prems have "h \<noteq> []" by auto
    then have "hd h \<in> set h" by simp
    then have "hd h \<in> set (concat gs)" using that by auto
    moreover have "hd g \<in> set g" using g by simp
    ultimately show ?thesis using Cons.prems(1) by (auto simp: sorted_append)
  qed
  moreover have "sorted (map (\<lambda>g. f (hd g)) gs)"
    using Cons by (auto simp: sorted_append)
  ultimately show ?case by auto
qed

lemma sorted_hd_last: "sorted (map f g) \<Longrightarrow> g \<noteq> [] \<Longrightarrow> f (hd g) \<le> f (last g)"
  by (cases g) auto

subsection \<open>Properties of the merger\<close>

text \<open>
  C1.  When every segment has non-empty text after trimming, the merger's output is
  the list of cues of a grouping of the input: the groups, concatenated, are the input
  itself, none is empty, and their sizes add up to the number of input segments, so
  every segment is absorbed into exactly one cue.  An empty input gives an empty output.
\<close>

theorem merger_totality:
  assumes "\<forall>t\<in>set segs. nonblank t"
  shows "sentence_segments_merger segs L G = map cue_of (merger_groups segs L G) \<and>
         concat (merger_groups segs L G) = segs \<and>
         [] \<notin> set (merger_groups segs L G) \<and>
         sum_list (map length (merger_groups segs L G)) = length segs \<and>
         sentence_segments_merger [] L G = []"
proof -
  from assms have "filter nonblank segs = segs" by (simp add: filter_id_conv)
  then have c: "concat (merger_groups segs L G) = segs"
    by (simp add: merger_groups_concat)
  have "length (concat (merger_groups segs L G)) = sum_list (map length (merger_groups segs L G))"
    by (rule length_concat)
  with c have n: "sum_list (map length (merger_groups segs L G)) = length segs" by simp
  have e: "sentence_segments_merger [] L G = []"
    by (simp add: sentence_segments_merger_def)
  from c n e merger_is_cues [of segs L G] merger_groups_nonempty [of segs L G]
  show ?thesis by blast
qed

lemma blank_step: "\<not> nonblank t \<Longrightarrow> merge_step L G st t = st"
  by (simp add: merge_step_def nonblank_def)

text \<open>
  C10.  Segments whose text is empty after trimming are skipped: the output is the
  output on the segments with non-empty trimmed text, and one iteration of the loop on
  such a segment leaves the whole state of the loop as it is.
\<close>

theorem merger_ignores_blank:
  "sentence_segments_merger segs L G = sentence_segments_merger (filter nonblank segs) L G \<and>
   (\<forall>st t. \<not> nonblank t \<longrightarrow> merge_step L G st t = st)"
proof -
  have "sentence_segments_merger segs L G = sentence_segments_merger (filter nonblank segs) L G"
  proof (cases "filter nonblank segs = []")
    case True
    then have "foldl (merge_step L G) merge_init segs = merge_init"
      using foldl_merge_step_filter [of L G merge_init segs] by simp
    with True show ?thesis by (simp add: sentence_segments_merger_def merge_finish_init)
  next
    case False
    then have "segs \<noteq> []" by auto
    with False show ?thesis
      by (simp add: sentence_segments_merger_def foldl_merge_step_filter)
  qed
  then show ?thesis by (simp add: blank_step)
qed

text \<open>Consecutive segments of a group are less than the interval apart.\<close>

definition gaps_ok :: "('t::{minus,linorder}) \<Rightarrow> 't segment list \<Rightarrow> bool" where
  "gaps_ok G g = (\<forall>i. Suc i < length g \<longrightarrow> seg_start (g ! Suc i) - seg_end (g ! i) < G)"

lemma gaps_ok_single: "gaps_ok G [t]"
  by (simp add: gaps_ok_def)

lemma gaps_ok_snoc:
  assumes "g \<noteq> []" "gaps_ok G g" "fits L G (cue_of g) t"
  shows "gaps_ok G (g @ [t])"
  unfolding gaps_ok_def
proof (intro allI impI)
  fix i assume i: "Suc i < length (g @ [t])"
  show "seg_start ((g @ [t]) ! Suc i) - seg_end ((g @ [t]) ! i) < G"
  proof (cases "Suc i < length g")
    case True
    with assms(2) show ?thesis by (simp add: gaps_ok_def nth_append)
  next
    case False
    with i have e: "Suc i = length g" by simp
    then have "i = length g - 1" by simp
    then have "(g @ [t]) ! i = last g" using assms(1)
      by (simp add: nth_append last_conv_nth)
    moreover have "(g @ [t]) ! Suc i = t" using e by (simp add: nth_append)
    ultimately show ?thesis using assms(3) by (simp add: fits_def cue_of_def)
  qed
qed

lemma merger_groups_gaps: "\<forall>g\<in>set (merger_groups segs L G). gaps_ok G g"
  by (rule merger_groups_all) (simp_all add: gaps_ok_single gaps_ok_snoc)

text \<open>
  Within a group, every segment after the first passed the test of the loop against the
  cue made of the segments before it; between two groups that follow each other, the
  first segment of the second failed the test against the cue of the first.
\<close>

definition absorbs_ok :: "int \<Rightarrow> 't \<Rightarrow> ('t::{minus,linorder}) segment list \<Rightarrow> bool" where
  "absorbs_ok L G g = (\<forall>i. 0 < i \<and> i < length g \<longrightarrow> fits L G (cue_of (take i g)) (g ! i))"

definition sealed_ok :: "int \<Rightarrow> 't \<Rightarrow> ('t::{minus,linorder}) segment list list \<Rightarrow> bool" where
  "sealed_ok L G gs = successively (\<lambda>g h. \<not> fits L G (cue_of g) (hd h)) gs"

lemma absorbs_ok_single: "absorbs_ok L G [t]"
  by (simp add: absorbs_ok_def)

lemma absorbs_ok_snoc:
  assumes "absorbs_ok L G g" "fits L G (cue_of g) t"
  shows "absorbs_ok L G (g @ [t])"
  unfolding absorbs_ok_def
proof (intro allI impI)
  fix i assume i: "0 < i \<and> i < length (g @ [t])"
  show "fits L G (cue_of (take i (g @ [t]))) ((g @ [t]) ! i)"
  proof (cases "i < length g")
    case True
    with assms(1) i show ?thesis by (simp add: absorbs_ok_def nth_append)
  next
    case False
    with i have "i = length g" by simp
    with assms(2) show ?thesis by simp
  qed
qed

lemma merger_groups_absorbs: "\<forall>g\<in>set (merger_groups segs L G). absorbs_ok L G g"
  by (rule merger_groups_all) (simp_all add: absorbs_ok_single absorbs_ok_snoc)

lemma sealed_ok_snoc_group:
  "gs \<noteq> [] \<Longrightarrow> sealed_ok L G gs \<Longrightarrow> \<not> fits L G (cue_of (last gs)) t \<Longrightarrow> sealed_ok L G (gs @ [[t]])"
  by (simp add: sealed_ok_def successively_append_iff)

lemma sealed_ok_grow_last:
  "g \<noteq> [] \<Longrightarrow> sealed_ok L G (gs @ [g]) \<Longrightarrow> sealed_ok L G (gs @ [g @ [t]])"
  by (simp add: sealed_ok_def successively_append_iff)

lemma seal_step:
  assumes l: "linked st gr"
    and s: "\<not> is_current_segment_empty st \<longrightarrow> sealed_ok L G (closed_groups gr @ [open_group gr])"
  shows "\<not> is_current_segment_empty (merge_step L G st seg) \<longrightarrow>
     sealed_ok L G (closed_groups (group_step L G st gr seg) @ [open_group (group_step L G st gr seg)])"
proof (cases "nonblank seg")
  case False
  with s show ?thesis by (simp add: group_step_def merge_step_def nonblank_def)
next
  case nb: True
  show ?thesis
  proof (cases "is_current_segment_empty st")
    case True
    with l have "closed_groups gr = []" by (simp add: linked_def)
    with nb True show ?thesis
      by (simp add: group_step_def nonblank_def sealed_ok_def)
  next
    case op: False
    with l have g: "open_group gr \<noteq> []" and cur: "current_segment st = cue_of (open_group gr)"
      by (auto simp: linked_def)
    from op s have so: "sealed_ok L G (closed_groups gr @ [open_group gr])" by simp
    show ?thesis
    proof (cases "fits L G (current_segment st) seg")
      case True
      with nb op sealed_ok_grow_last [OF g so] show ?thesis
        by (simp add: group_step_def nonblank_def)
    next
      case False
      with cur have "\<not> fits L G (cue_of (last (closed_groups gr @ [open_group gr]))) seg" by simp
      from sealed_ok_snoc_group [OF _ so this] nb op False show ?thesis
        by (simp add: group_step_def nonblank_def)
    qed
  qed
qed

lemma merger_groups_sealed: "sealed_ok L G (merger_groups segs L G)"
proof -
  let ?I = "\<lambda>sg. linked (fst sg) (snd sg) \<and>
      (\<not> is_current_segment_empty (fst sg) \<longrightarrow>
         sealed_ok L G (closed_groups (snd sg) @ [open_group (snd sg)]))"
  have step: "?I (traced_step L G sg seg)" if "?I sg" for sg seg
    using that seal_step [of "fst sg" "snd sg" L G seg]
    by (simp add: traced_step_def linked_step)
  have fold: "?I sg \<Longrightarrow> ?I (foldl (traced_step L G) sg xs)" for sg xs
  proof (induction xs arbitrary: sg)
    case Nil
    then show ?case by simp
  next
    case (Cons x xs)
    have "?I (traced_step L G sg x)" using Cons.prems by (rule step)
    from Cons.IH [OF this] show ?case by simp
  qed
  have "?I (merge_init, \<lparr>closed_groups = [], open_group = []\<rparr>)"
    by (simp add: linked_init) (simp add: merge_init_def)
  from fold [OF this, of segs]
  have i: "?I (traced_run L G segs)" by (simp add: traced_run_def)
  show ?thesis
  proof (cases "is_current_segment_empty (fst (traced_run L G segs))")
    case True
    with i have "closed_groups (snd (traced_run L G segs)) = []" by (simp add: linked_def)
    with True show ?thesis by (simp add: merger_groups_run group_finish_def sealed_ok_def)
  next
    case False
    with i show ?thesis by (simp add: merger_groups_run group_finish_def)
  qed
qed

text \<open>
  C2, as amended.  The candidate text whose length is tested is the text of the open cue,
  a space and the trimmed text of the segment.  With a segment of non-empty trimmed text:
  the test holds exactly when the gap is below \<open>max_segment_interval\<close> and the candidate
  text is shorter than \<open>max_text_len\<close>, both strictly; one iteration of the loop opens a
  cue from the segment when none is open, absorbs the segment into the open cue when the
  test holds, and otherwise (in particular when the gap equals the limit or the length
  equals the limit) seals the open cue and seeds a new one from the segment.  Over a
  whole run the output is the cues of the groups of the segments of non-empty trimmed
  text: inside a group every later segment passed the test against the cue before it,
  the first segment of every later group failed it against the cue of the group before,
  and consecutive segments of a group are less than \<open>max_segment_interval\<close> apart.
\<close>

theorem absorb_iff_fits:
  assumes "nonblank t"
  shows "(fits L G (current_segment st) t \<longleftrightarrow>
            seg_start t - seg_end (current_segment st) < G \<and>
            int (length (seg_text (current_segment st) @ str '' '' @ strip (seg_text t))) < L) \<and>
         (seg_start t - seg_end (current_segment st) = G \<longrightarrow> \<not> fits L G (current_segment st) t) \<and>
         (int (length (seg_text (current_segment st) @ str '' '' @ strip (seg_text t))) = L \<longrightarrow>
            \<not> fits L G (current_segment st) t) \<and>
         (is_current_segment_empty st \<longrightarrow>
            merge_step L G st t =
              st\<lparr>current_segment :=
                   \<lparr>seg_text = strip (seg_text t), seg_start = seg_start t, seg_end = seg_end t\<rparr>,
                 is_current_segment_empty := False\<rparr>) \<and>
         (\<not> is_current_segment_empty st \<and> fits L G (current_segment st) t \<longrightarrow>
            merge_step L G st t =
              st\<lparr>current_segment := (current_segment st)
                   \<lparr>seg_text := strip (seg_text (current_segment st) @ str '' '' @ strip (seg_text t)),
                    seg_end := seg_end t\<rparr>\<rparr>) \<and>
         (\<not> is_current_segment_empty st \<and> \<not> fits L G (current_segment st) t \<longrightarrow>
            merge_step L G st t =
              \<lparr>merged_segments = merged_segments st @
                 [(current_segment st)\<lparr>seg_text := strip (seg_text (current_segment st))\<rparr>],
               current_segment =
                 \<lparr>seg_text = strip (seg_text t), seg_start = seg_start t, seg_end = seg_end t\<rparr>,
               is_current_segment_empty = False\<rparr>) \<and>
         sentence_segments_merger segs L G =
           (if segs = [] then [] else merge_finish (foldl (merge_step L G) merge_init segs)) \<and>
         sentence_segments_merger segs L G = map cue_of (merger_groups segs L G) \<and>
         concat (merger_groups segs L G) = filter nonblank segs \<and>
         [] \<notin> set (merger_groups segs L G) \<and>
         (\<forall>g\<in>set (merger_groups segs L G). \<forall>i. 0 < i \<and> i < length g \<longrightarrow>
            fits L G (cue_of (take i g)) (g ! i)) \<and>
         successively (\<lambda>g h. \<not> fits L G (cue_of g) (hd h)) (merger_groups segs L G) \<and>
         (\<forall>g\<in>set (merger_groups segs L G). \<forall>i. Suc i < length g \<longrightarrow>
            seg_start (g ! Suc i) - seg_end (g ! i) < G)"
proof -
  let ?cur = "current_segment st"
  have a: "fits L G ?cur t \<longleftrightarrow>
      seg_start t - seg_end ?cur < G \<and> int (length (seg_text ?cur @ str '' '' @ strip (seg_text t))) < L"
    by (simp add: fits_def)
  have b: "seg_start t - seg_end ?cur = G \<longrightarrow> \<not> fits L G ?cur t"
    by (simp add: fits_def)
  have c: "int (length (seg_text ?cur @ str '' '' @ strip (seg_text t))) = L \<longrightarrow> \<not> fits L G ?cur t"
    by (auto simp: fits_def)
  have d: "is_current_segment_empty st \<longrightarrow> merge_step L G st t =
      st\<lparr>current_segment :=
           \<lparr>seg_text = strip (seg_text t), seg_start = seg_start t, seg_end = seg_end t\<rparr>,
         is_current_segment_empty := False\<rparr>"
    using assms by (simp add: merge_step_def nonblank_def Let_def)
  have e: "\<not> is_current_segment_empty st \<and> fits L G ?cur t \<longrightarrow> merge_step L G st t =
      st\<lparr>current_segment := ?cur\<lparr>seg_text := strip (seg_text ?cur @ str '' '' @ strip (seg_text t)),
            seg_end := seg_end t\<rparr>\<rparr>"
    using assms by (simp add: merge_step_def nonblank_def Let_def)
  have f: "\<not> is_current_segment_empty st \<and> \<not> fits L G ?cur t \<longrightarrow> merge_step L G st t =
      \<lparr>merged_segments = merged_segments st @ [?cur\<lparr>seg_text := strip (seg_text ?cur)\<rparr>],
       current_segment = \<lparr>seg_text = strip (seg_text t), seg_start = seg_start t, seg_end = seg_end t\<rparr>,
       is_current_segment_empty = False\<rparr>"
    using assms by (simp add: merge_step_def nonblank_def Let_def current_segment_template_def)
  have g: "sentence_segments_merger segs L G =
      (if segs = [] then [] else merge_finish (foldl (merge_step L G) merge_init segs))"
    by (simp add: sentence_segments_merger_def)
  have h: "sentence_segments_merger segs L G = map cue_of (merger_groups segs L G)"
    by (rule merger_is_cues)
  have i: "concat (merger_groups segs L G) = filter nonblank segs"
    by (rule merger_groups_concat)
  have j: "[] \<notin> set (merger_groups segs L G)" by (rule merger_groups_nonempty)
  have k: "\<forall>g\<in>set (merger_groups segs L G). \<forall>i. 0 < i \<and> i < length g \<longrightarrow>
      fits L G (cue_of (take i g)) (g ! i)"
    using merger_groups_absorbs [of segs L G] by (simp add: absorbs_ok_def)
  have l: "successively (\<lambda>g h. \<not> fits L G (cue_of g) (hd h)) (merger_groups segs L G)"
    using merger_groups_sealed [of L G segs] by (simp add: sealed_ok_def)
  have m: "\<forall>g\<in>set (merger_groups segs L G). \<forall>i. Suc i < length g \<longrightarrow>
      seg_start (g ! Suc i) - seg_end (g ! i) < G"
    using merger_groups_gaps [of segs L G] by (simp add: gaps_ok_def)
  show ?thesis
    by (intro conjI) (rule a b c d e f g h i j k l m)+
qed





text \<open>
  C5.  When every segment has non-empty trimmed text and \<open>start \<le> end\<close>, and the
  starts are non-decreasing, every output cue has \<open>start \<le> end\<close> and non-empty text,
  and the cues come out in non-decreasing order of start.
\<close>

theorem merger_cue_invariants:
  assumes tok: "\<forall>t\<in>set segs. nonblank t \<and> seg_start t \<le> seg_end t"
    and ord: "sorted (map seg_start segs)"
  shows "(\<forall>c\<in>set (sentence_segments_merger segs L G). seg_start c \<le> seg_end c \<and> seg_text c \<noteq> []) \<and>
         sorted (map seg_start (sentence_segments_merger segs L G))"
proof -
  let ?gs = "merger_groups segs L G"
  from tok have "filter nonblank segs = segs" by (simp add: filter_id_conv)
  then have c: "concat ?gs = segs" by (simp add: merger_groups_concat)
  have ne: "[] \<notin> set ?gs" by (rule merger_groups_nonempty)
  from ord c have sc: "sorted (map seg_start (concat ?gs))" by simp
  have cue: "seg_start (cue_of g) \<le> seg_end (cue_of g) \<and> seg_text (cue_of g) \<noteq> []"
    if g: "g \<in> set ?gs" for g
  proof -
    from g ne have gne: "g \<noteq> []" by auto
    from g have "set g \<subseteq> set (concat ?gs)" by auto
    with c have sub: "set g \<subseteq> set segs" by simp
    from sc g have "sorted (map seg_start g)" by (rule sorted_concat_part)
    then have "seg_start (hd g) \<le> seg_start (last g)" using gne by (rule sorted_hd_last)
    also have "\<dots> \<le> seg_end (last g)"
    proof -
      from gne have "last g \<in> set g" by simp
      with sub tok show ?thesis by blast
    qed
    finally have 1: "seg_start (cue_of g) \<le> seg_end (cue_of g)" by (simp add: cue_of_def)
    have "\<forall>w\<in>set (map (\<lambda>t. strip (seg_text t)) g). w \<noteq> []"
      using sub tok by (auto simp: nonblank_def)
    then have 2: "seg_text (cue_of g) \<noteq> []" using gne
      by (simp add: cue_of_def join_words_nonempty)
    from 1 2 show ?thesis ..
  qed
  have "sorted (map (\<lambda>g. seg_start (hd g)) ?gs)"
    using sc ne by (rule sorted_heads)
  then have "sorted (map seg_start (map cue_of ?gs))"
    by (simp add: cue_of_def comp_def)
  with cue show ?thesis by (auto simp: merger_is_cues)
qed

section \<open>The merger on concrete segments\<close>

definition ex_a :: "real segment" where "ex_a = \<lparr>seg_text = str ''a'', seg_start = 0.0, seg_end = 0.2\<rparr>"
definition ex_b :: "real segment" where "ex_b = \<lparr>seg_text = str ''b'', seg_start = 0.3, seg_end = 0.5\<rparr>"
definition ex_c :: "real segment" where "ex_c = \<lparr>seg_text = str ''c'', seg_start = 3.0, seg_end = 3.2\<rparr>"

definition ex_blank :: "real segment" where
  "ex_blank = \<lparr>seg_text = str ''  '', seg_start = 0.25, seg_end = 0.28\<rparr>"


definition ex_open :: "real merge_state" where
  "ex_open =
     \<lparr>merged_segments = [],
      current_segment = \<lparr>seg_text = str ''a b'', seg_start = 0.0, seg_end = 0.5\<rparr>,
      is_current_segment_empty = False\<rparr>"

text \<open>Segments whose text carries white space at its ends.\<close>

definition ex_ab :: "real segment" where
  "ex_ab = \<lparr>seg_text = str ''ab'', seg_start = 0, seg_end = 1\<rparr>"

definition ex_c_padded :: "real segment" where
  "ex_c_padded = \<lparr>seg_text = str ''c '', seg_start = 1, seg_end = 2\<rparr>"



lemmas ex_defs = ex_a_def ex_b_def ex_c_def
lemmas run_defs = str_def sentence_segments_merger_def merge_step_def merge_init_def merge_finish_def
      current_segment_template_def fits_def strip_def is_space_def Let_def nonblank_def
lemmas trace_defs = merger_groups_def traced_run_def traced_step_def group_step_def group_finish_def

text \<open>
  C4.  The segments ("a", 0.0, 0.2), ("b", 0.3, 0.5), ("c", 3.0, 3.2) with
  \<open>max_text_len = 80\<close> and \<open>max_segment_interval = 2.0\<close> give the two cues
  ("a b", 0.0, 0.5) and ("c", 3.0, 3.2).
\<close>

theorem merger_scenario:
  "sentence_segments_merger [ex_a, ex_b, ex_c] 80 2.0 =
     [\<lparr>seg_text = str ''a b'', seg_start = 0.0, seg_end = 0.5\<rparr>,
      \<lparr>seg_text = str ''c'', seg_start = 3.0, seg_end = 3.2\<rparr>]"
  by (simp add: ex_defs run_defs)

theorem merger_totality_witness:
  "nonblank ex_a \<and> nonblank ex_b \<and> nonblank ex_c \<and>
   sum_list (map length (merger_groups [ex_a, ex_b, ex_c] 80 2.0)) = 3 \<and>
   concat (merger_groups [ex_a, ex_b, ex_c] 80 2.0) = [ex_a, ex_b, ex_c]"
proof -
  have h: "\<forall>t\<in>set [ex_a, ex_b, ex_c]. nonblank t"
    by (simp add: ex_defs run_defs)
  from merger_totality [OF h, of 80 "2.0"] h show ?thesis by simp
qed


theorem merger_scenario_witness:
  "length (sentence_segments_merger [ex_a, ex_b, ex_c] 80 2.0) = 2"
  using merger_scenario by simp

theorem merger_ignores_blank_witness:
  "\<not> nonblank ex_blank \<and>
   merge_step 80 2.0 ex_open ex_blank = ex_open \<and>
   sentence_segments_merger [ex_a, ex_blank, ex_b] 80 2.0 =
     [\<lparr>seg_text = str ''a b'', seg_start = 0.0, seg_end = 0.5\<rparr>]"
proof -
  have b: "\<not> nonblank ex_blank" by (simp add: ex_blank_def run_defs)
  have f: "filter nonblank [ex_a, ex_blank, ex_b] = [ex_a, ex_b]"
    by (simp add: ex_defs ex_blank_def run_defs)
  have r: "sentence_segments_merger [ex_a, ex_b] 80 2.0 =
      [\<lparr>seg_text = str ''a b'', seg_start = 0.0, seg_end = 0.5\<rparr>]"
    by (simp add: ex_defs ex_blank_def ex_open_def run_defs)
  from merger_ignores_blank [of "[ex_a, ex_blank, ex_b]" 80 "2.0"] b f r show ?thesis by simp
qed

theorem absorb_iff_fits_witness:
  "nonblank ex_c \<and>
   seg_start ex_c - seg_end (current_segment ex_open) = 2.5 \<and>
   merge_step 80 2.5 ex_open ex_c =
     \<lparr>merged_segments = [\<lparr>seg_text = str ''a b'', seg_start = 0.0, seg_end = 0.5\<rparr>],
      current_segment = \<lparr>seg_text = str ''c'', seg_start = 3.0, seg_end = 3.2\<rparr>,
      is_current_segment_empty = False\<rparr> \<and>
   merger_groups [ex_a, ex_b, ex_c] 80 2.5 = [[ex_a, ex_b], [ex_c]] \<and>
   sentence_segments_merger [ex_a, ex_b, ex_c] 80 2.5 =
     [\<lparr>seg_text = str ''a b'', seg_start = 0.0, seg_end = 0.5\<rparr>,
      \<lparr>seg_text = str ''c'', seg_start = 3.0, seg_end = 3.2\<rparr>] \<and>
   fits 80 2.5 (cue_of [ex_a]) ex_b \<and>
   \<not> fits 80 2.5 (cue_of [ex_a, ex_b]) ex_c \<and>
   seg_start ex_b - seg_end ex_a < 2.5"
proof -
  have o: "\<not> is_current_segment_empty ex_open" by (simp add: ex_defs ex_open_def)
  have n: "nonblank ex_c" by (simp add: ex_defs ex_open_def run_defs)
  have gap: "seg_start ex_c - seg_end (current_segment ex_open) = 2.5"
    by (simp add: ex_defs ex_open_def)
  have gs: "merger_groups [ex_a, ex_b, ex_c] 80 2.5 = [[ex_a, ex_b], [ex_c]]"
    by (simp add: ex_defs ex_open_def run_defs trace_defs)
  have cues: "map cue_of [[ex_a, ex_b], [ex_c]] =
     [\<lparr>seg_text = str ''a b'', seg_start = 0.0, seg_end = 0.5\<rparr>,
      \<lparr>seg_text = str ''c'', seg_start = 3.0, seg_end = 3.2\<rparr>]"
    by (simp add: cue_of_def ex_defs ex_open_def str_def strip_def is_space_def)
  note T = absorb_iff_fits [OF n, of 80 "2.5" ex_open "[ex_a, ex_b, ex_c]"]
  from T have nf: "seg_start ex_c - seg_end (current_segment ex_open) = 2.5 \<longrightarrow>
      \<not> fits 80 2.5 (current_segment ex_open) ex_c" by (elim conjE)
  from T have seal: "\<not> is_current_segment_empty ex_open \<and> \<not> fits 80 2.5 (current_segment ex_open) ex_c \<longrightarrow>
      merge_step 80 2.5 ex_open ex_c =
        \<lparr>merged_segments = merged_segments ex_open @
           [(current_segment ex_open)\<lparr>seg_text := strip (seg_text (current_segment ex_open))\<rparr>],
         current_segment =
           \<lparr>seg_text = strip (seg_text ex_c), seg_start = seg_start ex_c, seg_end = seg_end ex_c\<rparr>,
         is_current_segment_empty = False\<rparr>" by (elim conjE)
  from nf gap seal o have "merge_step 80 2.5 ex_open ex_c =
        \<lparr>merged_segments = merged_segments ex_open @
           [(current_segment ex_open)\<lparr>seg_text := strip (seg_text (current_segment ex_open))\<rparr>],
         current_segment =
           \<lparr>seg_text = strip (seg_text ex_c), seg_start = seg_start ex_c, seg_end = seg_end ex_c\<rparr>,
         is_current_segment_empty = False\<rparr>" by blast
  then have step: "merge_step 80 2.5 ex_open ex_c =
     \<lparr>merged_segments = [\<lparr>seg_text = str ''a b'', seg_start = 0.0, seg_end = 0.5\<rparr>],
      current_segment = \<lparr>seg_text = str ''c'', seg_start = 3.0, seg_end = 3.2\<rparr>,
      is_current_segment_empty = False\<rparr>"
    by (simp add: ex_defs ex_open_def str_def strip_def is_space_def)
  from T have "sentence_segments_merger [ex_a, ex_b, ex_c] 80 2.5 =
      map cue_of (merger_groups [ex_a, ex_b, ex_c] 80 2.5)" by (elim conjE)
  with gs cues have out: "sentence_segments_merger [ex_a, ex_b, ex_c] 80 2.5 =
     [\<lparr>seg_text = str ''a b'', seg_start = 0.0, seg_end = 0.5\<rparr>,
      \<lparr>seg_text = str ''c'', seg_start = 3.0, seg_end = 3.2\<rparr>]" by (simp only:)
  from T have "\<forall>g\<in>set (merger_groups [ex_a, ex_b, ex_c] 80 2.5). \<forall>i. 0 < i \<and> i < length g \<longrightarrow>
      fits 80 2.5 (cue_of (take i g)) (g ! i)" by (elim conjE)
  then have "\<forall>i. 0 < i \<and> i < length [ex_a, ex_b] \<longrightarrow>
      fits 80 2.5 (cue_of (take i [ex_a, ex_b])) ([ex_a, ex_b] ! i)"
    unfolding gs by simp
  then have "0 < (1::nat) \<and> 1 < length [ex_a, ex_b] \<longrightarrow>
      fits 80 2.5 (cue_of (take 1 [ex_a, ex_b])) ([ex_a, ex_b] ! 1)" by (rule spec)
  then have ab: "fits 80 2.5 (cue_of [ex_a]) ex_b" by simp
  from T have "successively (\<lambda>g h. \<not> fits 80 2.5 (cue_of g) (hd h))
      (merger_groups [ex_a, ex_b, ex_c] 80 2.5)" by (elim conjE)
  then have sl: "\<not> fits 80 2.5 (cue_of [ex_a, ex_b]) ex_c" unfolding gs by simp
  from T have "\<forall>g\<in>set (merger_groups [ex_a, ex_b, ex_c] 80 2.5). \<forall>i. Suc i < length g \<longrightarrow>
      seg_start (g ! Suc i) - seg_end (g ! i) < 2.5" by (elim conjE)
  then have "\<forall>i. Suc i < length [ex_a, ex_b] \<longrightarrow>
      seg_start ([ex_a, ex_b] ! Suc i) - seg_end ([ex_a, ex_b] ! i) < 2.5"
    unfolding gs by simp
  then have "Suc 0 < length [ex_a, ex_b] \<longrightarrow>
      seg_start ([ex_a, ex_b] ! Suc 0) - seg_end ([ex_a, ex_b] ! 0) < 2.5" by (rule spec)
  then have gp: "seg_start ex_b - seg_end ex_a < 2.5" by simp
  from n gap step gs out ab sl gp show ?thesis by (intro conjI)
qed

text \<open>
  The claim C2 as it was written tests the length with the text of the segment as it
  comes.  Here that candidate text has the length \<open>max_text_len\<close>, the loop tests the
  trimmed text, and the segment is absorbed.
\<close>

theorem absorb_raw_length_counterexample:
  "int (length (seg_text (cue_of [ex_ab]) @ str '' '' @ seg_text ex_c_padded)) = 5 \<and>
   seg_start ex_c_padded - seg_end (cue_of [ex_ab]) < 2 \<and>
   sentence_segments_merger [ex_ab, ex_c_padded] 5 2 =
     [\<lparr>seg_text = str ''ab c'', seg_start = 0, seg_end = 2\<rparr>] \<and>
   merger_groups [ex_ab, ex_c_padded] 5 2 = [[ex_ab, ex_c_padded]]"
proof -
  have 1: "int (length (seg_text (cue_of [ex_ab]) @ str '' '' @ seg_text ex_c_padded)) = 5"
    by (simp add: cue_of_def ex_defs ex_ab_def ex_c_padded_def str_def strip_def is_space_def)
  have 2: "seg_start ex_c_padded - seg_end (cue_of [ex_ab]) < 2"
    by (simp add: cue_of_def ex_defs ex_ab_def ex_c_padded_def)
  have 3: "sentence_segments_merger [ex_ab, ex_c_padded] 5 2 =
     [\<lparr>seg_text = str ''ab c'', seg_start = 0, seg_end = 2\<rparr>]"
    by (simp add: ex_defs ex_ab_def ex_c_padded_def run_defs)
  have 4: "merger_groups [ex_ab, ex_c_padded] 5 2 = [[ex_ab, ex_c_padded]]"
    by (simp add: ex_defs ex_ab_def ex_c_padded_def run_defs trace_defs)
  from 1 2 3 4 show ?thesis by (intro conjI)
qed



theorem merger_cue_invariants_witness:
  "nonblank ex_a \<and> nonblank ex_b \<and> nonblank ex_c \<and>
   seg_start ex_a \<le> seg_end ex_a \<and> seg_start ex_b \<le> seg_end ex_b \<and> seg_start ex_c \<le> seg_end ex_c \<and>
   sorted (map seg_start [ex_a, ex_b, ex_c]) \<and>
   sorted (map seg_start (sentence_segments_merger [ex_a, ex_b, ex_c] 80 2.0))"
proof -
  have t: "\<forall>t\<in>set [ex_a, ex_b, ex_c]. nonblank t \<and> seg_start t \<le> seg_end t"
    by (simp add: ex_defs run_defs)
  have s: "sorted (map seg_start [ex_a, ex_b, ex_c])" by (simp add: ex_defs)
  from merger_cue_invariants [OF t s, of 80 "2.0"] t s show ?thesis by simp
qed

section \<open>The phonetic translator (whisper.py, translate_phonetic_alphabet)\<close>

datatype py_error = KeyError

text \<open>
  The regular expression and \<open>str.lower\<close> read the Unicode character database.  What
  the translator depends on is written out below; the rest of the database is a
  parameter, and every result holds whatever it is:
  \<^item> \<open>uni_word\<close>: whether a code point from 256 on is a word character (\<open>\w\<close>);
  \<^item> \<open>uni_lower\<close>: \<open>str.lower\<close> on a code point from 128 on.
\<close>

record unicode =
  uni_word :: "nat \<Rightarrow> bool"
  uni_lower :: "nat \<Rightarrow> pystr"

text \<open>
  \<open>\w\<close> for a \<open>str\<close> pattern: alphanumeric code points and the underscore.  Below 256
  these are the digits, the letters, \<open>_\<close>, and the letters and numerics of Latin-1.
  U+0130, U+0131, U+017F and U+212A are letters.
\<close>

definition is_word :: "unicode \<Rightarrow> nat \<Rightarrow> bool" where
  "is_word U n =
     (if n < 256 then
        (48 \<le> n \<and> n \<le> 57) \<or> (65 \<le> n \<and> n \<le> 90) \<or> n = 95 \<or> (97 \<le> n \<and> n \<le> 122) \<or>
        n = 170 \<or> n = 178 \<or> n = 179 \<or> n = 181 \<or> n = 185 \<or> n = 186 \<or>
        (188 \<le> n \<and> n \<le> 190) \<or> (192 \<le> n \<and> n \<le> 214) \<or> (216 \<le> n \<and> n \<le> 246) \<or>
        248 \<le> n
      else n = 304 \<or> n = 305 \<or> n = 383 \<or> n = 8490 \<or> uni_word U n)"

text \<open>
  \<open>re.IGNORECASE\<close> on a \<open>str\<close> pattern: a letter \<open>a\<close>..\<open>z\<close> of the pattern matches a
  code point exactly when \<open>fold_char\<close> of the code point is that letter.  These are the
  letter, its capital and, for \<open>i\<close>, \<open>s\<close> and \<open>k\<close>, the four code points U+0130 and
  U+0131 (dotted capital and dotless small i), U+017F (long s) and U+212A (Kelvin sign).
\<close>

definition fold_char :: "nat \<Rightarrow> nat" where
  "fold_char n =
     (if 65 \<le> n \<and> n \<le> 90 then n + 32
      else if n = 304 \<or> n = 305 then 105
      else if n = 383 then 115
      else if n = 8490 then 107
      else n)"

text \<open>
  \<open>str.lower\<close>, code point by code point: a capital \<open>A\<close>..\<open>Z\<close> becomes its small letter,
  the rest of ASCII stays; U+0130 becomes \<open>i\<close> followed by U+0307, U+212A becomes \<open>k\<close>,
  while U+0131 and U+017F are small letters already.
\<close>

definition lower_char :: "unicode \<Rightarrow> nat \<Rightarrow> pystr" where
  "lower_char U n =
     (if 65 \<le> n \<and> n \<le> 90 then [n + 32]
      else if n < 128 \<or> n = 305 \<or> n = 383 then [n]
      else if n = 304 then [105, 775]
      else if n = 8490 then [107]
      else uni_lower U n)"

definition lower :: "unicode \<Rightarrow> pystr \<Rightarrow> pystr" where
  "lower U s = concat (map (lower_char U) s)"

definition phonetic_to_letter :: "(pystr \<times> pystr) list" where
  "phonetic_to_letter =
     map (\<lambda>(word, letter). (str word, str letter))
       [(''alpha'', ''A''), (''bravo'', ''B''), (''charlie'', ''C''), (''delta'', ''D''),
        (''echo'', ''E''), (''foxtrot'', ''F''), (''golf'', ''G''), (''hotel'', ''H''),
        (''india'', ''I''), (''juliet'', ''J''), (''kilo'', ''K''), (''lima'', ''L''),
        (''mike'', ''M''), (''november'', ''N''), (''oscar'', ''O''), (''papa'', ''P''),
        (''quebec'', ''Q''), (''romeo'', ''R''), (''sierra'', ''S''), (''tango'', ''T''),
        (''uniform'', ''U''), (''victor'', ''V''), (''whiskey'', ''W''), (''xray'', ''X''),
        (''yankee'', ''Y''), (''zulu'', ''Z'')]"

text \<open>\<open>\b\<close>: the code points before and after the position differ in being word characters;
  the start and the end of the text count as not being one.\<close>

fun opt_is_word :: "unicode \<Rightarrow> nat option \<Rightarrow> bool" where
  "opt_is_word U None = False"
| "opt_is_word U (Some c) = is_word U c"

definition word_boundary :: "unicode \<Rightarrow> nat option \<Rightarrow> nat option \<Rightarrow> bool" where
  "word_boundary U before after = (opt_is_word U before \<noteq> opt_is_word U after)"

fun head_opt :: "pystr \<Rightarrow> nat option" where
  "head_opt [] = None"
| "head_opt (c # cs) = Some c"

text \<open>One alternative of the pattern, followed by the closing \<open>\b\<close>, at the head of \<open>s\<close>;
  \<open>prev\<close> is the code point before \<open>s\<close> in the text.\<close>

definition match_alt :: "unicode \<Rightarrow> nat option \<Rightarrow> pystr \<Rightarrow> pystr \<Rightarrow> bool" where
  "match_alt U prev word s =
     (let n = length word; m = take n s in
      n \<le> length s \<and> map fold_char m = word \<and>
      word_boundary U (if m = [] then prev else Some (last m)) (head_opt (drop n s)))"

text \<open>The whole pattern at the head of \<open>s\<close>: the opening \<open>\b\<close>, then the first alternative,
  in the order of the dictionary, that matches.  The result is the matched text.\<close>

definition match_at :: "unicode \<Rightarrow> nat option \<Rightarrow> pystr \<Rightarrow> pystr option" where
  "match_at U prev s =
     (if word_boundary U prev (head_opt s)
      then (case find (\<lambda>word. match_alt U prev word s) (map fst phonetic_to_letter) of
              None \<Rightarrow> None
            | Some word \<Rightarrow> Some (take (length word) s))
      else None)"

definition replace_match_and_bold :: "unicode \<Rightarrow> pystr \<Rightarrow> py_error + pystr" where
  "replace_match_and_bold U m =
     (let matched_word = lower U m in
      case map_of phonetic_to_letter matched_word of
        None \<Rightarrow> Inl KeyError
      | Some letter \<Rightarrow>
          if matched_word = str ''november'' \<and> letter = str ''N''
          then Inr (27 # str ''[1m'' @ letter @ 27 # str ''[0m'')
          else Inr letter)"

text \<open>Appending two results; an exception on the left is raised before the right is looked at.\<close>

definition then_append :: "py_error + pystr \<Rightarrow> py_error + pystr \<Rightarrow> py_error + pystr" where
  "then_append x y =
     (case x of Inl e \<Rightarrow> Inl e | Inr r \<Rightarrow> (case y of Inl e \<Rightarrow> Inl e | Inr r' \<Rightarrow> Inr (r @ r')))"

lemma find_Some_holds: "find P xs = Some x \<Longrightarrow> P x \<and> x \<in> set xs"
  by (induction xs) (auto split: if_splits)

lemma keys_nonempty: "word \<in> set (map fst phonetic_to_letter) \<Longrightarrow> word \<noteq> []"
  by (auto simp: phonetic_to_letter_def str_def)

lemma match_at_nonempty:
  assumes "match_at U prev s = Some m"
  shows "m \<noteq> [] \<and> length m \<le> length s"
proof -
  from assms obtain word
    where f: "find (\<lambda>word. match_alt U prev word s) (map fst phonetic_to_letter) = Some word"
    and m: "m = take (length word) s"
    by (auto simp: match_at_def split: if_splits option.splits)
  from find_Some_holds [OF f]
  have "match_alt U prev word s" and "word \<in> set (map fst phonetic_to_letter)"
    by simp_all
  then have "word \<noteq> []" and "length word \<le> length s"
    by (simp_all add: keys_nonempty match_alt_def Let_def)
  with m show ?thesis by auto
qed

text \<open>
  \<open>re.sub\<close> with the pattern and the callback: the text is scanned from the left; where
  the pattern matches, the callback's result replaces the match and the scan goes on
  behind it, where it does not, the code point is copied.
\<close>

function re_sub :: "unicode \<Rightarrow> nat option \<Rightarrow> pystr \<Rightarrow> py_error + pystr" where
  "re_sub U prev [] = Inr []"
| "re_sub U prev (c # cs) =
     (case match_at U prev (c # cs) of
        None \<Rightarrow> then_append (Inr [c]) (re_sub U (Some c) cs)
      | Some m \<Rightarrow>
          then_append (replace_match_and_bold U m)
            (re_sub U (Some (last m)) (drop (length m) (c # cs))))"
  by pat_completeness auto
termination re_sub
proof (relation "measure (\<lambda>(U, prev, s). length s)")
  show "wf (measure (\<lambda>(U, prev, s). length s))" by simp
next
  fix U :: unicode and prev :: "nat option" and c cs
  show "((U, Some c, cs), U, prev, c # cs) \<in> measure (\<lambda>(U, prev, s). length s)" by simp
next
  fix U :: unicode and prev :: "nat option" and c cs m
  assume "match_at U prev (c # cs) = Some m"
  then have "m \<noteq> []" by (simp add: match_at_nonempty)
  then show "((U, Some (last m), drop (length m) (c # cs)), U, prev, c # cs)
      \<in> measure (\<lambda>(U, prev, s). length s)"
    by (cases m) simp_all
qed

definition translate_phonetic_alphabet :: "unicode \<Rightarrow> pystr \<Rightarrow> py_error + pystr" where
  "translate_phonetic_alphabet U text = re_sub U None text"

subsection \<open>The dictionary and the pattern\<close>

definition is_small :: "nat \<Rightarrow> bool" where
  "is_small n = (97 \<le> n \<and> n \<le> 122)"

definition entry_ok :: "pystr \<times> pystr \<Rightarrow> bool" where
  "entry_ok e =
     (4 \<le> length (fst e) \<and> list_all is_small (fst e) \<and> length (snd e) = 1 \<and>
      65 \<le> hd (snd e) \<and> hd (snd e) \<le> 90 \<and> hd (snd e) + 32 = hd (fst e))"

lemma table_ok: "list_all entry_ok phonetic_to_letter"
  by code_simp

lemma keys_distinct: "distinct (map fst phonetic_to_letter)"
  by code_simp

lemma map_of_november: "map_of phonetic_to_letter (str ''november'') = Some (str ''N'')"
  by code_simp

lemma entry_facts:
  assumes "(word, letter) \<in> set phonetic_to_letter"
  shows "4 \<le> length word" and "\<forall>c\<in>set word. is_small c"
    and "\<exists>x. letter = [x] \<and> 65 \<le> x \<and> x \<le> 90 \<and> x + 32 = hd word"
proof -
  from table_ok assms have ok: "entry_ok (word, letter)" by (simp add: list_all_iff)
  then show "4 \<le> length word" by (simp add: entry_ok_def)
  from ok show "\<forall>c\<in>set word. is_small c" by (simp add: entry_ok_def list_all_iff)
  from ok have "length letter = 1" "65 \<le> hd letter" "hd letter \<le> 90" "hd letter + 32 = hd word"
    by (simp_all add: entry_ok_def)
  then show "\<exists>x. letter = [x] \<and> 65 \<le> x \<and> x \<le> 90 \<and> x + 32 = hd word"
    by (cases letter) auto
qed

lemma key_facts:
  assumes "word \<in> set (map fst phonetic_to_letter)"
  shows "4 \<le> length word" and "\<forall>c\<in>set word. is_small c"
proof -
  from assms obtain letter where "(word, letter) \<in> set phonetic_to_letter" by auto
  then show "4 \<le> length word" and "\<forall>c\<in>set word. is_small c"
    by (rule entry_facts)+
qed

text \<open>The code points that fold to a small letter.\<close>

lemma fold_small_cases:
  assumes "is_small (fold_char c)"
  shows "(65 \<le> c \<and> c \<le> 90) \<or> (97 \<le> c \<and> c \<le> 122) \<or> c = 304 \<or> c = 305 \<or> c = 383 \<or> c = 8490"
  using assms by (auto simp: is_small_def fold_char_def split: if_splits)

lemma fold_small_is_word: "is_small (fold_char c) \<Longrightarrow> is_word U c"
  using fold_small_cases [of c] by (auto simp: is_word_def)

lemma fold_key_all_word:
  assumes "map fold_char m \<in> set (map fst phonetic_to_letter)"
  shows "\<forall>c\<in>set m. is_word U c"
proof
  fix c assume "c \<in> set m"
  then have "fold_char c \<in> set (map fold_char m)" by simp
  with key_facts(2) [OF assms] have "is_small (fold_char c)" by blast
  then show "is_word U c" by (rule fold_small_is_word)
qed

lemma find_eq: "find (\<lambda>x. x = y) xs = (if y \<in> set xs then Some y else None)"
  by (induction xs) auto

lemma takeWhile_all:
  "\<forall>x\<in>set xs. P x \<Longrightarrow> ys = [] \<or> \<not> P (hd ys) \<Longrightarrow> takeWhile P (xs @ ys) = xs"
  by (cases ys) (auto simp: takeWhile_append2)

lemma dropWhile_all:
  "\<forall>x\<in>set xs. P x \<Longrightarrow> ys = [] \<or> \<not> P (hd ys) \<Longrightarrow> dropWhile P (xs @ ys) = ys"
  by (cases ys) (auto simp: dropWhile_append2)

lemma dropWhile_stops: "dropWhile P xs = [] \<or> \<not> P (hd (dropWhile P xs))"
  using hd_dropWhile by blast

lemma takeWhile_dropWhile_Nil: "takeWhile P (dropWhile P xs) = []"
  by (induction xs) auto

lemma stops_not_word:
  "ys = [] \<or> \<not> is_word U (hd ys) \<Longrightarrow> \<not> opt_is_word U (head_opt ys)"
  by (cases ys) auto

text \<open>A key matches at a position exactly when it is the folded maximal run of word
  characters there.\<close>

lemma match_alt_iff:
  assumes k: "word \<in> set (map fst phonetic_to_letter)"
  shows "match_alt U prev word s \<longleftrightarrow> map fold_char (takeWhile (is_word U) s) = word"
proof
  let ?w = "takeWhile (is_word U) s" and ?r = "dropWhile (is_word U) s"
  let ?n = "length word" and ?m = "take (length word) s"
  have ne: "word \<noteq> []" using key_facts(1) [OF k] by auto
  {
    assume "match_alt U prev word s"
    then have len: "?n \<le> length s" and low: "map fold_char ?m = word"
      and b: "word_boundary U (if ?m = [] then prev else Some (last ?m)) (head_opt (drop ?n s))"
      by (simp_all add: match_alt_def Let_def)
    from low k have "map fold_char ?m \<in> set (map fst phonetic_to_letter)" by simp
    then have allw: "\<forall>c\<in>set ?m. is_word U c" by (rule fold_key_all_word)
    from len ne have mne: "?m \<noteq> []" by auto
    then have "last ?m \<in> set ?m" by simp
    with allw have "is_word U (last ?m)" by blast
    with b mne have "\<not> opt_is_word U (head_opt (drop ?n s))" by (simp add: word_boundary_def)
    then have stop: "drop ?n s = [] \<or> \<not> is_word U (hd (drop ?n s))"
      by (cases "drop ?n s") auto
    have "takeWhile (is_word U) (?m @ drop ?n s) = ?m" using allw stop by (rule takeWhile_all)
    then have "?w = ?m" by simp
    with low show "map fold_char ?w = word" by simp
  }
  {
    assume e: "map fold_char ?w = word"
    then have l: "length ?w = ?n" by auto
    have s: "s = ?w @ ?r" by simp
    have t: "?m = ?w" using l by (metis append_eq_conv_conj s)
    have d: "drop ?n s = ?r" using l by (metis append_eq_conv_conj s)
    from l ne have wne: "?w \<noteq> []" by auto
    then have "last ?w \<in> set ?w" by simp
    then have lw: "is_word U (last ?w)" by (meson set_takeWhileD)
    have "\<not> opt_is_word U (head_opt ?r)"
      using dropWhile_stops [of "is_word U" s] by (rule stops_not_word)
    moreover have "?n \<le> length s" using length_takeWhile_le [of "is_word U" s] l by simp
    moreover have "s \<noteq> []" using wne by auto
    ultimately show "match_alt U prev word s" using lw wne t d e ne
      by (simp add: match_alt_def Let_def word_boundary_def)
  }
qed

lemma match_at_iff:
  "match_at U prev s =
     (if \<not> opt_is_word U prev \<and>
         map fold_char (takeWhile (is_word U) s) \<in> set (map fst phonetic_to_letter)
      then Some (takeWhile (is_word U) s) else None)"
proof -
  let ?w = "takeWhile (is_word U) s"
  have "find (\<lambda>word. match_alt U prev word s) (map fst phonetic_to_letter) =
        find (\<lambda>word. word = map fold_char ?w) (map fst phonetic_to_letter)"
    by (rule find_cong) (auto simp: match_alt_iff)
  then have f: "find (\<lambda>word. match_alt U prev word s) (map fst phonetic_to_letter) =
      (if map fold_char ?w \<in> set (map fst phonetic_to_letter) then Some (map fold_char ?w) else None)"
    by (simp only: find_eq)
  show ?thesis
  proof (cases "map fold_char ?w \<in> set (map fst phonetic_to_letter)")
    case False
    with f show ?thesis by (simp add: match_at_def)
  next
    case True
    then have "4 \<le> length ?w" using key_facts(1) [OF True] by simp
    then have wne: "?w \<noteq> []" by auto
    then obtain c cs where s: "s = c # cs" by (cases s) auto
    with wne have "is_word U c" by (auto split: if_splits)
    then have b: "word_boundary U prev (head_opt s) \<longleftrightarrow> \<not> opt_is_word U prev"
      using s by (simp add: word_boundary_def)
    have "take (length (map fold_char ?w)) s = ?w"
      by (simp add: takeWhile_eq_take [symmetric])
    with f True b show ?thesis by (simp add: match_at_def)
  qed
qed

text \<open>Where \<open>str.lower\<close> and the matcher's folding agree, and where they do not.\<close>

definition plain :: "nat \<Rightarrow> bool" where
  "plain c = (c \<noteq> 304 \<and> c \<noteq> 305 \<and> c \<noteq> 383)"

lemma lower_char_plain:
  "is_small (fold_char c) \<Longrightarrow> plain c \<Longrightarrow> lower_char U c = [fold_char c]"
  using fold_small_cases [of c]
  by (auto simp: plain_def lower_char_def fold_char_def)

lemma lower_char_not_plain:
  "\<not> plain c \<Longrightarrow> \<exists>x\<in>set (lower_char U c). \<not> is_small x"
  by (auto simp: plain_def lower_char_def is_small_def)

lemma lower_plain:
  "\<forall>c\<in>set m. is_small (fold_char c) \<and> plain c \<Longrightarrow> lower U m = map fold_char m"
  by (induction m) (auto simp: lower_def lower_char_plain)

lemma lower_not_plain:
  "\<exists>c\<in>set m. \<not> plain c \<Longrightarrow> \<exists>x\<in>set (lower U m). \<not> is_small x"
  using lower_char_not_plain by (fastforce simp: lower_def)

lemma map_of_key:
  "map_of phonetic_to_letter k = Some l \<Longrightarrow> (k, l) \<in> set phonetic_to_letter"
  by (rule map_of_SomeD)

lemma key_has_letter:
  "k \<in> set (map fst phonetic_to_letter) \<Longrightarrow> \<exists>l. map_of phonetic_to_letter k = Some l"
  by (cases "map_of phonetic_to_letter k") (auto simp: map_of_eq_None_iff)

text \<open>The callback on a match: the letter of the key when the match lower-cases to the
  key, \<open>KeyError\<close> when it holds one of U+0130, U+0131, U+017F.\<close>

lemma replace_plain:
  assumes key: "map fold_char m \<in> set (map fst phonetic_to_letter)"
    and pl: "\<forall>c\<in>set m. plain c"
    and l: "map_of phonetic_to_letter (map fold_char m) = Some letter"
  shows "replace_match_and_bold U m =
     Inr (if map fold_char m = str ''november'' then 27 # str ''[1mN'' @ 27 # str ''[0m''
          else letter)"
proof -
  have "\<forall>c\<in>set m. is_small (fold_char c) \<and> plain c"
    using key_facts(2) [OF key] pl by simp
  then have lo: "lower U m = map fold_char m" by (rule lower_plain)
  show ?thesis
  proof (cases "map fold_char m = str ''november''")
    case True
    with l have "letter = str ''N''" by (simp add: map_of_november)
    with l lo True show ?thesis by (simp add: replace_match_and_bold_def str_def)
  next
    case False
    with l lo show ?thesis by (simp add: replace_match_and_bold_def)
  qed
qed

lemma replace_not_plain:
  assumes "\<exists>c\<in>set m. \<not> plain c"
  shows "replace_match_and_bold U m = Inl KeyError"
proof -
  from lower_not_plain [OF assms] obtain x where x: "x \<in> set (lower U m)" "\<not> is_small x" by blast
  have "map_of phonetic_to_letter (lower U m) = None"
  proof (cases "map_of phonetic_to_letter (lower U m)")
    case None
    then show ?thesis .
  next
    case (Some l)
    then have "(lower U m, l) \<in> set phonetic_to_letter" by (rule map_of_SomeD)
    from entry_facts(2) [OF this] x show ?thesis by blast
  qed
  then show ?thesis by (simp add: replace_match_and_bold_def)
qed

subsection \<open>Translation by whole words\<close>

text \<open>
  The translator in the words of its specification: the text is cut into its maximal
  runs of word characters and the code points between them; a run that is a phonetic
  word, read without regard to case, is replaced, every other piece is kept.
\<close>

function word_pieces :: "unicode \<Rightarrow> pystr \<Rightarrow> pystr list" where
  "word_pieces U [] = []"
| "word_pieces U (c # cs) =
     (if is_word U c
      then (c # takeWhile (is_word U) cs) # word_pieces U (dropWhile (is_word U) cs)
      else [c] # word_pieces U cs)"
  by pat_completeness auto
termination word_pieces
  by (relation "measure (\<lambda>(U, s). length s)") (auto simp: length_dropWhile_le le_imp_less_Suc)

definition translate_piece :: "unicode \<Rightarrow> pystr \<Rightarrow> py_error + pystr" where
  "translate_piece U w =
     (if map fold_char w \<in> set (map fst phonetic_to_letter)
      then replace_match_and_bold U w else Inr w)"

fun join_results :: "(py_error + pystr) list \<Rightarrow> py_error + pystr" where
  "join_results [] = Inr []"
| "join_results (x # xs) = then_append x (join_results xs)"

definition translate_whole_words :: "unicode \<Rightarrow> pystr \<Rightarrow> py_error + pystr" where
  "translate_whole_words U s = join_results (map (translate_piece U) (word_pieces U s))"

definition stops :: "unicode \<Rightarrow> pystr \<Rightarrow> bool" where
  "stops U t = (t = [] \<or> \<not> is_word U (hd t))"

lemma then_append_simps:
  "then_append (Inl e) y = Inl e"
  "then_append (Inr r) (Inl e) = Inl e"
  "then_append (Inr r) (Inr r') = Inr (r @ r')"
  by (simp_all add: then_append_def)

lemma then_append_Inr:
  "then_append x y = Inr t \<longleftrightarrow> (\<exists>r r'. x = Inr r \<and> y = Inr r' \<and> t = r @ r')"
  by (cases x; cases y) (auto simp: then_append_def)

lemma then_append_assoc:
  "then_append (then_append x y) z = then_append x (then_append y z)"
  by (cases x; cases y; cases z) (simp_all add: then_append_def)

lemma translate_piece_short: "length w < 4 \<Longrightarrow> translate_piece U w = Inr w"
proof -
  assume "length w < 4"
  then have "map fold_char w \<notin> set (map fst phonetic_to_letter)"
    using key_facts(1) [of "map fold_char w"] by auto
  then show ?thesis by (simp add: translate_piece_def)
qed

lemma tww_Nil: "translate_whole_words U [] = Inr []"
  by (simp add: translate_whole_words_def)

lemma tww_nonword:
  "\<not> is_word U c \<Longrightarrow>
     translate_whole_words U (c # cs) = then_append (Inr [c]) (translate_whole_words U cs)"
  by (simp add: translate_whole_words_def translate_piece_short)

lemma tww_word:
  "is_word U c \<Longrightarrow> translate_whole_words U (c # cs) =
     then_append (translate_piece U (c # takeWhile (is_word U) cs))
       (translate_whole_words U (dropWhile (is_word U) cs))"
  by (simp add: translate_whole_words_def)

lemma tww_run:
  assumes "\<forall>c\<in>set w. is_word U c" and "w \<noteq> []" and "stops U t"
  shows "translate_whole_words U (w @ t) =
     then_append (translate_piece U w) (translate_whole_words U t)"
proof -
  from assms(2) obtain c w' where w: "w = c # w'" by (cases w) auto
  with assms(1) have c: "is_word U c" and w': "\<forall>x\<in>set w'. is_word U x" by simp_all
  from assms(3) have st: "t = [] \<or> \<not> is_word U (hd t)" by (simp add: stops_def)
  have "takeWhile (is_word U) (w' @ t) = w'" using w' st by (rule takeWhile_all)
  moreover have "dropWhile (is_word U) (w' @ t) = t" using w' st by (rule dropWhile_all)
  ultimately show ?thesis using c w by (simp add: tww_word)
qed

text \<open>The scan of \<open>re.sub\<close> computes the translation by whole words.\<close>

lemma re_sub_is_whole_words:
  "re_sub U prev s =
     (if opt_is_word U prev
      then then_append (Inr (takeWhile (is_word U) s))
             (translate_whole_words U (dropWhile (is_word U) s))
      else translate_whole_words U s)"
proof (induction s arbitrary: prev rule: length_induct)
  case (1 s)
  show ?case
  proof (cases s)
    case Nil
    then show ?thesis by (simp add: tww_Nil then_append_simps)
  next
    case (Cons c cs)
    have tail: "re_sub U (Some c) cs =
        (if is_word U c
         then then_append (Inr (takeWhile (is_word U) cs))
                (translate_whole_words U (dropWhile (is_word U) cs))
         else translate_whole_words U cs)"
      using 1 Cons by simp
    let ?w = "takeWhile (is_word U) s" and ?d = "dropWhile (is_word U) s"
    show ?thesis
    proof (cases "\<not> opt_is_word U prev \<and> map fold_char ?w \<in> set (map fst phonetic_to_letter)")
      case True
      then have key: "map fold_char ?w \<in> set (map fst phonetic_to_letter)"
        and np: "\<not> opt_is_word U prev"
        by simp_all
      from key_facts(1) [OF key] have wne: "?w \<noteq> []" by auto
      with Cons have wc: "is_word U c" by (auto split: if_splits)
      from True have m: "match_at U prev (c # cs) = Some ?w"
        using Cons by (simp add: match_at_iff)
      have lw: "is_word U (last ?w)" using wne by (meson last_in_set set_takeWhileD)
      have d: "drop (length ?w) (c # cs) = ?d"
        using Cons by (metis append_eq_conv_conj takeWhile_dropWhile_id)
      have "length ?w + length ?d = length s"
        by (metis length_append takeWhile_dropWhile_id)
      with wne have "length ?d < length s" by (cases ?w) auto
      with 1 have "re_sub U (Some (last ?w)) ?d =
          (if opt_is_word U (Some (last ?w))
           then then_append (Inr (takeWhile (is_word U) ?d))
                  (translate_whole_words U (dropWhile (is_word U) ?d))
           else translate_whole_words U ?d)" by blast
      then have "re_sub U (Some (last ?w)) ?d = then_append (Inr []) (translate_whole_words U ?d)"
        using lw by (simp add: takeWhile_dropWhile_Nil)
      then have rest: "re_sub U (Some (last ?w)) ?d = translate_whole_words U ?d"
        by (cases "translate_whole_words U ?d") (simp_all add: then_append_simps)
      have tp: "translate_piece U ?w = replace_match_and_bold U ?w"
        using key by (simp add: translate_piece_def)
      have "re_sub U prev (c # cs) =
          then_append (translate_piece U ?w) (translate_whole_words U ?d)"
        by (simp add: m tp d rest del: takeWhile.simps dropWhile.simps)
      also have "\<dots> = translate_whole_words U s"
        using Cons wc by (simp add: tww_word)
      finally show ?thesis using np Cons by simp
    next
      case False
      then have m: "match_at U prev (c # cs) = None" using Cons by (simp add: match_at_iff)
      have r: "re_sub U prev s = then_append (Inr [c]) (re_sub U (Some c) cs)"
        using Cons m by simp
      show ?thesis
      proof (cases "is_word U c")
        case wc: True
        have r': "re_sub U prev s =
            then_append (Inr (c # takeWhile (is_word U) cs))
              (translate_whole_words U (dropWhile (is_word U) cs))"
          using r tail wc
          by (cases "translate_whole_words U (dropWhile (is_word U) cs)")
            (simp_all add: then_append_simps)
        show ?thesis
        proof (cases "opt_is_word U prev")
          case True
          with r' wc Cons show ?thesis by simp
        next
          case np: False
          with False have "map fold_char ?w \<notin> set (map fst phonetic_to_letter)" by simp
          with wc Cons
          have "translate_piece U (c # takeWhile (is_word U) cs) = Inr (c # takeWhile (is_word U) cs)"
            by (simp add: translate_piece_def)
          with r' np wc Cons show ?thesis by (simp add: tww_word)
        qed
      next
        case nw: False
        with r tail have "re_sub U prev s = translate_whole_words U s"
          using Cons by (simp add: tww_nonword)
        moreover have "then_append (Inr []) (translate_whole_words U s) = translate_whole_words U s"
          by (cases "translate_whole_words U s") (simp_all add: then_append_simps)
        ultimately show ?thesis using nw Cons by simp
      qed
    qed
  qed
qed

lemma translate_is_whole_words:
  "translate_phonetic_alphabet U s = translate_whole_words U s"
  by (simp add: translate_phonetic_alphabet_def re_sub_is_whole_words)

subsection \<open>Translated text holds no phonetic word\<close>

definition bold_N :: pystr where
  "bold_N = 27 # str ''[1mN'' @ 27 # str ''[0m''"

lemma stops_tww:
  assumes "stops U t" and "translate_whole_words U t = Inr r"
  shows "stops U r"
proof (cases t)
  case Nil
  with assms(2) show ?thesis by (simp add: tww_Nil stops_def)
next
  case (Cons c cs)
  with assms(1) have "\<not> is_word U c" by (simp add: stops_def)
  with assms(2) Cons have "then_append (Inr [c]) (translate_whole_words U cs) = Inr r"
    by (simp add: tww_nonword)
  then obtain r' where "r = [c] @ r'" by (auto simp: then_append_Inr)
  with \<open>\<not> is_word U c\<close> show ?thesis by (simp add: stops_def)
qed

text \<open>What a run of word characters can be translated to.\<close>

lemma translate_piece_result:
  assumes "translate_piece U w = Inr r"
  shows "(r = w \<and> map fold_char w \<notin> set (map fst phonetic_to_letter)) \<or>
         (\<exists>x. r = [x] \<and> 65 \<le> x \<and> x \<le> 90) \<or> r = bold_N"
proof (cases "map fold_char w \<in> set (map fst phonetic_to_letter)")
  case False
  with assms show ?thesis by (simp add: translate_piece_def)
next
  case True
  with assms have rep: "replace_match_and_bold U w = Inr r" by (simp add: translate_piece_def)
  have pl: "\<forall>c\<in>set w. plain c"
  proof (rule ccontr)
    assume "\<not> (\<forall>c\<in>set w. plain c)"
    then have "\<exists>c\<in>set w. \<not> plain c" by simp
    from replace_not_plain [OF this] rep show False by simp
  qed
  from key_has_letter [OF True] obtain letter
    where l: "map_of phonetic_to_letter (map fold_char w) = Some letter" ..
  from replace_plain [OF True pl l] rep
  have r: "r = (if map fold_char w = str ''november'' then 27 # str ''[1mN'' @ 27 # str ''[0m'' else letter)"
    by simp
  from l have "(map fold_char w, letter) \<in> set phonetic_to_letter" by (rule map_of_SomeD)
  from entry_facts(3) [OF this] obtain x where "letter = [x]" "65 \<le> x" "x \<le> 90" by blast
  with r show ?thesis by (auto simp: bold_N_def)
qed

lemma tww_capital:
  assumes "65 \<le> x" "x \<le> 90" "stops U t"
  shows "translate_whole_words U ([x] @ t) = then_append (Inr [x]) (translate_whole_words U t)"
proof -
  from assms(1,2) have "is_word U x" by (simp add: is_word_def)
  then have "translate_whole_words U ([x] @ t) =
      then_append (translate_piece U [x]) (translate_whole_words U t)"
    using assms(3) by (intro tww_run) simp_all
  then show ?thesis by (simp add: translate_piece_short)
qed

lemma tww_bold:
  assumes "stops U t"
  shows "translate_whole_words U (bold_N @ t) = then_append (Inr bold_N) (translate_whole_words U t)"
proof -
  have nw: "\<not> is_word U 27" "\<not> is_word U 91" by (simp_all add: is_word_def)
  have w1: "\<forall>c\<in>set [49, 109, 78]. is_word U c" and w2: "\<forall>c\<in>set [48, 109]. is_word U c"
    by (simp_all add: is_word_def)
  have b: "bold_N = [27, 91] @ [49, 109, 78] @ [27, 91] @ [48, 109]"
    by (simp add: bold_N_def str_def)
  have 1: "translate_whole_words U ([48, 109] @ t) =
      then_append (Inr [48, 109]) (translate_whole_words U t)"
    using tww_run [OF w2 _ assms] by (simp add: translate_piece_short)
  have 2: "translate_whole_words U ([27, 91] @ [48, 109] @ t) =
      then_append (Inr [27, 91]) (translate_whole_words U ([48, 109] @ t))"
    using nw by (cases "translate_whole_words U ([48, 109] @ t)")
      (simp_all add: tww_nonword then_append_simps)
  have "stops U ([27, 91] @ [48, 109] @ t)" using nw by (simp add: stops_def)
  from tww_run [OF w1 _ this]
  have 3: "translate_whole_words U ([49, 109, 78] @ [27, 91] @ [48, 109] @ t) =
      then_append (Inr [49, 109, 78]) (translate_whole_words U ([27, 91] @ [48, 109] @ t))"
    by (simp add: translate_piece_short)
  have 4: "translate_whole_words U ([27, 91] @ [49, 109, 78] @ [27, 91] @ [48, 109] @ t) =
      then_append (Inr [27, 91])
        (translate_whole_words U ([49, 109, 78] @ [27, 91] @ [48, 109] @ t))"
    using nw by (cases "translate_whole_words U ([49, 109, 78] @ [27, 91] @ [48, 109] @ t)")
      (simp_all add: tww_nonword then_append_simps)
  show ?thesis
    unfolding b append_assoc 4 3 2 1
    by (cases "translate_whole_words U t") (simp_all add: then_append_simps)
qed

lemma tww_output:
  assumes w: "\<forall>c\<in>set w. is_word U c" "w \<noteq> []"
    and r: "translate_piece U w = Inr r" and t: "stops U t"
  shows "translate_whole_words U (r @ t) = then_append (Inr r) (translate_whole_words U t)"
proof -
  from translate_piece_result [OF r]
  consider (same) "r = w" "map fold_char w \<notin> set (map fst phonetic_to_letter)"
    | (letter) x where "r = [x]" "65 \<le> x" "x \<le> 90"
    | (bold) "r = bold_N" by blast
  then show ?thesis
  proof cases
    case same
    then have "translate_piece U w = Inr w" by (simp add: translate_piece_def)
    with same(1) tww_run [OF w t] show ?thesis by simp
  next
    case letter
    with tww_capital [OF letter(2,3) t] show ?thesis by simp
  next
    case bold
    with tww_bold [OF t] show ?thesis by simp
  qed
qed

lemma tww_idempotent:
  "translate_whole_words U s = Inr t \<Longrightarrow> translate_whole_words U t = Inr t"
proof (induction s arbitrary: t rule: length_induct)
  case (1 s)
  show ?case
  proof (cases s)
    case Nil
    with 1(2) show ?thesis by (simp add: tww_Nil)
  next
    case (Cons c cs)
    show ?thesis
    proof (cases "is_word U c")
      case False
      with 1(2) Cons obtain r' where r': "translate_whole_words U cs = Inr r'" and t: "t = c # r'"
        by (auto simp: tww_nonword then_append_Inr)
      have "length cs < length s" using Cons by simp
      with 1(1) r' have "translate_whole_words U r' = Inr r'" by blast
      with False t show ?thesis by (simp add: tww_nonword then_append_simps)
    next
      case True
      let ?w = "c # takeWhile (is_word U) cs" and ?d = "dropWhile (is_word U) cs"
      from 1(2) Cons True obtain r r'
        where r: "translate_piece U ?w = Inr r" and r': "translate_whole_words U ?d = Inr r'"
          and t: "t = r @ r'"
        by (auto simp: tww_word then_append_Inr)
      have "length ?d < length s" using Cons length_dropWhile_le [of "is_word U" cs] by simp
      with 1(1) r' have fp: "translate_whole_words U r' = Inr r'" by blast
      have "stops U ?d" using dropWhile_stops [of "is_word U" cs] by (simp add: stops_def)
      then have st: "stops U r'" using r' by (rule stops_tww)
      have w: "\<forall>x\<in>set ?w. is_word U x" "?w \<noteq> []"
        using True by (auto dest: set_takeWhileD)
      from tww_output [OF w r st] fp t show ?thesis by (simp add: then_append_simps)
    qed
  qed
qed

lemma translate_piece_plain:
  assumes "\<forall>c\<in>set w. plain c"
  shows "\<exists>r. translate_piece U w = Inr r"
proof (cases "map fold_char w \<in> set (map fst phonetic_to_letter)")
  case False
  then show ?thesis by (simp add: translate_piece_def)
next
  case True
  from key_has_letter [OF True] obtain letter
    where l: "map_of phonetic_to_letter (map fold_char w) = Some letter" ..
  from replace_plain [OF True assms l] True show ?thesis by (simp add: translate_piece_def)
qed

lemma tww_total:
  "\<forall>c\<in>set s. plain c \<Longrightarrow> \<exists>t. translate_whole_words U s = Inr t"
proof (induction s rule: length_induct)
  case (1 s)
  show ?case
  proof (cases s)
    case Nil
    then show ?thesis by (simp add: tww_Nil)
  next
    case (Cons c cs)
    show ?thesis
    proof (cases "is_word U c")
      case False
      from 1 Cons obtain r' where "translate_whole_words U cs = Inr r'" by auto
      with False Cons show ?thesis by (simp add: tww_nonword then_append_simps)
    next
      case True
      let ?w = "c # takeWhile (is_word U) cs" and ?d = "dropWhile (is_word U) cs"
      have "length ?d < length s" using Cons length_dropWhile_le [of "is_word U" cs] by simp
      moreover have "\<forall>x\<in>set ?d. plain x" using 1(2) Cons by (auto dest: set_dropWhileD)
      ultimately obtain r' where r': "translate_whole_words U ?d = Inr r'" using 1(1) by blast
      have "\<forall>x\<in>set ?w. plain x" using 1(2) Cons by (auto dest: set_takeWhileD)
      from translate_piece_plain [OF this] obtain r where "translate_piece U ?w = Inr r" ..
      with r' True Cons show ?thesis by (simp add: tww_word then_append_simps)
    qed
  qed
qed

lemma concat_word_pieces: "concat (word_pieces U s) = s"
  by (induction U s rule: word_pieces.induct) simp_all

lemma pieces_shape:
  "w \<in> set (word_pieces U s) \<Longrightarrow>
     (w \<noteq> [] \<and> (\<forall>c\<in>set w. is_word U c)) \<or> (\<exists>c. w = [c] \<and> \<not> is_word U c)"
  by (induction U s rule: word_pieces.induct) (auto split: if_splits dest: set_takeWhileD)

lemma first_piece_hd: "word_pieces U s = p # ps \<Longrightarrow> hd p = hd s"
  by (cases s) (auto split: if_splits)

lemma pieces_maximal:
  "word_pieces U s = us @ a # b # vs \<Longrightarrow> \<not> (is_word U (hd a) \<and> is_word U (hd b))"
proof (induction U s arbitrary: us rule: word_pieces.induct)
  case (1 U)
  then show ?case by simp
next
  case (2 U c cs)
  show ?case
  proof (cases us)
    case Nil
    show ?thesis
    proof (cases "is_word U c")
      case True
      with 2(3) Nil have b: "word_pieces U (dropWhile (is_word U) cs) = b # vs" by simp
      have "dropWhile (is_word U) cs \<noteq> []"
      proof
        assume "dropWhile (is_word U) cs = []"
        then have "word_pieces U (dropWhile (is_word U) cs) = []" by (simp only: word_pieces.simps)
        with b show False by simp
      qed
      then have "\<not> is_word U (hd (dropWhile (is_word U) cs))" by (rule hd_dropWhile)
      with first_piece_hd [OF b] show ?thesis by simp
    next
      case False
      with 2(3) Nil have "a = [c]" by simp
      with False show ?thesis by simp
    qed
  next
    case (Cons u us')
    show ?thesis
    proof (cases "is_word U c")
      case True
      with 2(3) Cons have "word_pieces U (dropWhile (is_word U) cs) = us' @ a # b # vs" by simp
      with 2(1) True show ?thesis by blast
    next
      case False
      with 2(3) Cons have "word_pieces U cs = us' @ a # b # vs" by simp
      with 2(2) False show ?thesis by blast
    qed
  qed
qed

subsection \<open>Properties of the translator\<close>

lemmas translate_eval =
  translate_whole_words_def translate_piece_def replace_match_and_bold_def lower_def lower_char_def
  fold_char_def is_word_def phonetic_to_letter_def str_def then_append_def

text \<open>
  C6.  Translating twice is translating once: the second translation of a returned text
  returns it unchanged, and where the first raises, so does the composition.  The
  translator returns on every text without U+0130, U+0131 and U+017F.
\<close>

theorem translate_idempotent:
  "(case translate_phonetic_alphabet U s of
      Inl e \<Rightarrow> Inl e
    | Inr t \<Rightarrow> translate_phonetic_alphabet U t) = translate_phonetic_alphabet U s \<and>
   (\<forall>t. translate_phonetic_alphabet U s = Inr t \<longrightarrow> translate_phonetic_alphabet U t = Inr t) \<and>
   ((\<forall>c\<in>set s. c \<noteq> 304 \<and> c \<noteq> 305 \<and> c \<noteq> 383) \<longrightarrow>
      (\<exists>t. translate_phonetic_alphabet U s = Inr t))"
proof -
  have a: "translate_phonetic_alphabet U t = Inr t" if "translate_phonetic_alphabet U s = Inr t" for t
    using that tww_idempotent [of U s t] by (simp add: translate_is_whole_words)
  then have b: "(case translate_phonetic_alphabet U s of
      Inl e \<Rightarrow> Inl e
    | Inr t \<Rightarrow> translate_phonetic_alphabet U t) = translate_phonetic_alphabet U s"
    by (cases "translate_phonetic_alphabet U s") simp_all
  have c: "\<exists>t. translate_phonetic_alphabet U s = Inr t"
    if "\<forall>c\<in>set s. c \<noteq> 304 \<and> c \<noteq> 305 \<and> c \<noteq> 383"
    using that tww_total [of s U] by (simp add: translate_is_whole_words plain_def)
  from a b c show ?thesis by blast
qed

text \<open>
  C7.  The translator replaces whole words only, without regard to case: its result is
  the pieces of the text, each maximal run of word characters and each code point
  between the runs, with the runs that are phonetic words replaced and every other piece
  unchanged.  So "alphabetically" stays, "Alpha Bravo" becomes "A B", and
  "November charlie" becomes the emphasized N followed by " C".
\<close>

theorem whole_word_matching:
  "translate_phonetic_alphabet U s = join_results (map (translate_piece U) (word_pieces U s)) \<and>
   concat (word_pieces U s) = s \<and>
   (\<forall>w\<in>set (word_pieces U s).
      (w \<noteq> [] \<and> (\<forall>c\<in>set w. is_word U c)) \<or> (\<exists>c. w = [c] \<and> \<not> is_word U c)) \<and>
   (\<forall>us a b vs. word_pieces U s = us @ a # b # vs \<longrightarrow>
      \<not> (is_word U (hd a) \<and> is_word U (hd b))) \<and>
   (\<forall>w. map fold_char w \<notin> set (map fst phonetic_to_letter) \<longrightarrow> translate_piece U w = Inr w) \<and>
   translate_phonetic_alphabet U (str ''alphabetically'') = Inr (str ''alphabetically'') \<and>
   translate_phonetic_alphabet U (str ''Alpha Bravo'') = Inr (str ''A B'') \<and>
   translate_phonetic_alphabet U (str ''November charlie'') =
     Inr (27 # str ''[1mN'' @ 27 # str ''[0m C'')"
proof -
  have 1: "translate_phonetic_alphabet U s = join_results (map (translate_piece U) (word_pieces U s))"
    by (simp add: translate_is_whole_words translate_whole_words_def)
  have 2: "concat (word_pieces U s) = s" by (rule concat_word_pieces)
  have 3: "\<forall>w\<in>set (word_pieces U s).
      (w \<noteq> [] \<and> (\<forall>c\<in>set w. is_word U c)) \<or> (\<exists>c. w = [c] \<and> \<not> is_word U c)"
    using pieces_shape by blast
  have 4: "\<forall>us a b vs. word_pieces U s = us @ a # b # vs \<longrightarrow>
      \<not> (is_word U (hd a) \<and> is_word U (hd b))"
    using pieces_maximal by blast
  have 5: "\<forall>w. map fold_char w \<notin> set (map fst phonetic_to_letter) \<longrightarrow> translate_piece U w = Inr w"
    by (simp add: translate_piece_def)
  have 6: "translate_phonetic_alphabet U (str ''alphabetically'') = Inr (str ''alphabetically'')"
    unfolding translate_is_whole_words by (simp add: translate_eval)
  have 7: "translate_phonetic_alphabet U (str ''Alpha Bravo'') = Inr (str ''A B'')"
    unfolding translate_is_whole_words by (simp add: translate_eval)
  have 8: "translate_phonetic_alphabet U (str ''November charlie'') =
      Inr (27 # str ''[1mN'' @ 27 # str ''[0m C'')"
    unfolding translate_is_whole_words by (simp add: translate_eval)
  from 1 2 3 4 5 6 7 8 show ?thesis by blast
qed

text \<open>
  C8.  A match that lower-cases to "november" is replaced by N between ESC[1m and
  ESC[0m, and a match that lower-cases to another phonetic word by the bare capital
  letter of that word.  But not every match lower-cases to a phonetic word: the text
  U+017F "ierra" matches the alternative "sierra", \<open>str.lower\<close> leaves U+017F as it is,
  and the lookup of the letter raises \<open>KeyError\<close>.
\<close>

theorem long_s_match_raises:
  "(\<forall>prev s m. match_at U prev s = Some m \<longrightarrow>
      map fold_char m \<in> set (map fst phonetic_to_letter)) \<and>
   (\<forall>m. lower U m = str ''november'' \<longrightarrow>
      replace_match_and_bold U m = Inr (27 # str ''[1mN'' @ 27 # str ''[0m'')) \<and>
   (\<forall>m word letter. (word, letter) \<in> set phonetic_to_letter \<and> word \<noteq> str ''november'' \<and>
      lower U m = word \<longrightarrow>
      replace_match_and_bold U m = Inr letter \<and>
      (\<exists>x. letter = [x] \<and> 65 \<le> x \<and> x \<le> 90 \<and> x + 32 = hd word)) \<and>
   match_at U None (383 # str ''ierra'') = Some (383 # str ''ierra'') \<and>
   lower U (383 # str ''ierra'') = 383 # str ''ierra'' \<and>
   replace_match_and_bold U (383 # str ''ierra'') = Inl KeyError \<and>
   translate_phonetic_alphabet U (383 # str ''ierra'') = Inl KeyError"
proof -
  have a: "\<forall>prev s m. match_at U prev s = Some m \<longrightarrow>
      map fold_char m \<in> set (map fst phonetic_to_letter)"
    by (auto simp: match_at_iff split: if_splits)
  have b: "\<forall>m. lower U m = str ''november'' \<longrightarrow>
      replace_match_and_bold U m = Inr (27 # str ''[1mN'' @ 27 # str ''[0m'')"
    by (simp add: replace_match_and_bold_def map_of_november) (simp add: str_def)
  have c: "replace_match_and_bold U m = Inr letter \<and>
      (\<exists>x. letter = [x] \<and> 65 \<le> x \<and> x \<le> 90 \<and> x + 32 = hd word)"
    if "(word, letter) \<in> set phonetic_to_letter" "word \<noteq> str ''november''" "lower U m = word"
    for m word letter
  proof -
    from keys_distinct that(1) have "map_of phonetic_to_letter word = Some letter"
      by (rule map_of_is_SomeI)
    with that(2,3) have "replace_match_and_bold U m = Inr letter"
      by (simp add: replace_match_and_bold_def)
    with entry_facts(3) [OF that(1)] show ?thesis by simp
  qed
  have w: "takeWhile (is_word U) (383 # str ''ierra'') = 383 # str ''ierra''"
    by (simp add: is_word_def str_def)
  have k: "map fold_char (383 # str ''ierra'') \<in> set (map fst phonetic_to_letter)"
    by (simp add: fold_char_def phonetic_to_letter_def str_def)
  have d: "match_at U None (383 # str ''ierra'') = Some (383 # str ''ierra'')"
    unfolding match_at_iff w using k by simp
  have e: "lower U (383 # str ''ierra'') = 383 # str ''ierra''"
    by (simp add: lower_def lower_char_def str_def)
  have f: "replace_match_and_bold U (383 # str ''ierra'') = Inl KeyError"
    by (rule replace_not_plain) (simp add: plain_def)
  have g: "translate_phonetic_alphabet U (383 # str ''ierra'') = Inl KeyError"
    unfolding translate_is_whole_words by (simp add: translate_eval)
  from a b c d e f g show ?thesis by blast
qed

section \<open>The translator on concrete texts\<close>

text \<open>A table for the rest of the Unicode database, to run the translator on.\<close>

definition ex_unicode :: unicode where
  "ex_unicode = \<lparr>uni_word = (\<lambda>n. False), uni_lower = (\<lambda>n. [n])\<rparr>"

theorem translate_idempotent_witness:
  "translate_phonetic_alphabet ex_unicode (str ''November alpha'') =
     Inr (27 # str ''[1mN'' @ 27 # str ''[0m A'') \<and>
   translate_phonetic_alphabet ex_unicode (27 # str ''[1mN'' @ 27 # str ''[0m A'') =
     Inr (27 # str ''[1mN'' @ 27 # str ''[0m A'')"
proof -
  have 1: "translate_phonetic_alphabet ex_unicode (str ''November alpha'') =
      Inr (27 # str ''[1mN'' @ 27 # str ''[0m A'')"
    unfolding translate_is_whole_words by (simp add: translate_eval)
  from translate_idempotent [of ex_unicode "str ''November alpha''"] 1 show ?thesis by blast
qed

theorem whole_word_matching_witness:
  "word_pieces ex_unicode (str ''xray-Zulu9 zulu'') =
     [str ''xray'', str ''-'', str ''Zulu9'', str '' '', str ''zulu''] \<and>
   translate_phonetic_alphabet ex_unicode (str ''xray-Zulu9 zulu'') = Inr (str ''X-Zulu9 Z'')"
proof -
  have p: "word_pieces ex_unicode (str ''xray-Zulu9 zulu'') =
      [str ''xray'', str ''-'', str ''Zulu9'', str '' '', str ''zulu'']"
    by (simp add: is_word_def str_def)
  have "join_results (map (translate_piece ex_unicode)
      [str ''xray'', str ''-'', str ''Zulu9'', str '' '', str ''zulu'']) = Inr (str ''X-Zulu9 Z'')"
    by (simp add: translate_eval)
  with whole_word_matching [of ex_unicode "str ''xray-Zulu9 zulu''"] p show ?thesis by simp
qed

theorem long_s_match_raises_witness:
  "match_at ex_unicode None (383 # str ''ierra'') = Some (383 # str ''ierra'') \<and>
   translate_phonetic_alphabet ex_unicode (383 # str ''ierra'') = Inl KeyError \<and>
   replace_match_and_bold ex_unicode (str ''NoVember'') = Inr (27 # str ''[1mN'' @ 27 # str ''[0m'')"
proof -
  have "lower ex_unicode (str ''NoVember'') = str ''november''"
    by (simp add: lower_def lower_char_def str_def)
  with long_s_match_raises [of ex_unicode] show ?thesis by blast
qed

end
